theory Spec2Isabelle
  imports Complex_Main
begin

section \<open>Values and errors\<close>

text \<open>
  Python floats are modelled by exact reals (no rounding, no overflow, no signed zero).
  The central value of a distribution keeps the distinction between a Python \<open>int\<close> and a
  Python \<open>float\<close>, because \<open>combine_distributions\<close> asserts \<open>isinstance(central_value, float)\<close>.
\<close>

datatype pynum = PyInt int | PyFloat real

fun num_val :: "pynum \<Rightarrow> real" where
  "num_val (PyInt i) = of_int i"
| "num_val (PyFloat r) = r"

fun is_float :: "pynum \<Rightarrow> bool" where
  "is_float (PyFloat r) = True"
| "is_float (PyInt i) = False"

text \<open>Python's \<open>!=\<close> on numbers compares the numeric values: \<open>5 != 5.0\<close> is false.\<close>

definition py_ne :: "pynum \<Rightarrow> pynum \<Rightarrow> bool" where
  "py_ne a b = (num_val a \<noteq> num_val b)"

text \<open>
  The exceptions the code raises; a \<open>ValueError\<close> carries its message
  (\<open>numpy.linalg.LinAlgError\<close> is a subclass of \<open>ValueError\<close>). \<open>NotModelled\<close> is not an
  exception: a library function returns it on an argument outside the domain on which
  its behaviour is modelled here, with the reason.
\<close>

datatype error =
    IndexError
  | AssertionError
  | AttributeError
  | ZeroDivisionError
  | ValueError string
  | NotModelled string

definition msg_same_central :: string where
  "msg_same_central = ''All distributions to be combined must have the same central value''"

definition msg_only_normal :: string where
  "msg_only_normal = ''Combination only implemented for normal distributions''"

definition msg_math_domain :: string where
  "msg_math_domain = ''math domain error''"

text \<open>\<open>math.sqrt\<close> and \<open>math.log\<close> raise \<open>ValueError\<close> outside their domain.\<close>

definition math_sqrt :: "real \<Rightarrow> error + real" where
  "math_sqrt v = (if v < 0 then Inl (ValueError msg_math_domain) else Inr (sqrt v))"

definition math_log :: "real \<Rightarrow> error + real" where
  "math_log v = (if v \<le> 0 then Inl (ValueError msg_math_domain) else Inr (ln v))"

text \<open>
  Where the code itself produces a non-finite float (the literal \<open>-np.inf\<close>, numpy's
  \<open>log(0)\<close> and division by zero, scipy's \<open>nan\<close> for an invalid scale), the value is one of
  the special values below. Arithmetic on them is numpy's (IEEE 754 without signed
  zeros): it never raises.
\<close>

datatype pyfloat = Fin real | PosInf | NegInf | NaN

fun fneg :: "pyfloat \<Rightarrow> pyfloat" where
  "fneg (Fin a) = Fin (- a)"
| "fneg PosInf = NegInf"
| "fneg NegInf = PosInf"
| "fneg NaN = NaN"

fun fadd :: "pyfloat \<Rightarrow> pyfloat \<Rightarrow> pyfloat" where
  "fadd (Fin a) (Fin b) = Fin (a + b)"
| "fadd NaN _ = NaN"
| "fadd _ NaN = NaN"
| "fadd PosInf NegInf = NaN"
| "fadd NegInf PosInf = NaN"
| "fadd PosInf _ = PosInf"
| "fadd _ PosInf = PosInf"
| "fadd NegInf _ = NegInf"
| "fadd _ NegInf = NegInf"

definition fsub :: "pyfloat \<Rightarrow> pyfloat \<Rightarrow> pyfloat" where
  "fsub a b = fadd a (fneg b)"

text \<open>The sign of a value that is not \<open>nan\<close>: \<open>-1\<close>, \<open>0\<close> or \<open>1\<close>.\<close>

fun fsign :: "pyfloat \<Rightarrow> int" where
  "fsign (Fin a) = (if a < 0 then - 1 else if a = 0 then 0 else 1)"
| "fsign PosInf = 1"
| "fsign NegInf = - 1"
| "fsign NaN = 0"

definition inf_of_sign :: "int \<Rightarrow> pyfloat" where
  "inf_of_sign s = (if s = 0 then NaN else if s < 0 then NegInf else PosInf)"

fun fmul :: "pyfloat \<Rightarrow> pyfloat \<Rightarrow> pyfloat" where
  "fmul (Fin a) (Fin b) = Fin (a * b)"
| "fmul NaN _ = NaN"
| "fmul _ NaN = NaN"
| "fmul a b = inf_of_sign (fsign a * fsign b)"

fun fdiv :: "pyfloat \<Rightarrow> pyfloat \<Rightarrow> pyfloat" where
  "fdiv (Fin a) (Fin b) = (if b = 0 then inf_of_sign (fsign (Fin a)) else Fin (a / b))"
| "fdiv NaN _ = NaN"
| "fdiv _ NaN = NaN"
| "fdiv (Fin a) _ = Fin 0"
| "fdiv a (Fin b) = inf_of_sign (fsign a * (if b < 0 then - 1 else 1))"
| "fdiv _ _ = NaN"

text \<open>\<open>np.log\<close>: \<open>-inf\<close> at zero and \<open>nan\<close> below it, with a warning and no exception.\<close>

fun np_log :: "pyfloat \<Rightarrow> pyfloat" where
  "np_log (Fin a) = (if a < 0 then NaN else if a = 0 then NegInf else Fin (ln a))"
| "np_log PosInf = PosInf"
| "np_log NegInf = NaN"
| "np_log NaN = NaN"

text \<open>Comparison: every comparison with \<open>nan\<close> is false.\<close>

fun flt :: "pyfloat \<Rightarrow> pyfloat \<Rightarrow> bool" where
  "flt (Fin a) (Fin b) = (a < b)"
| "flt NaN _ = False"
| "flt _ NaN = False"
| "flt NegInf NegInf = False"
| "flt NegInf _ = True"
| "flt _ NegInf = False"
| "flt PosInf _ = False"
| "flt _ PosInf = True"

text \<open>
  An object of \<open>scipy.interpolate.interp1d\<close> (linear): the nodes sorted, the values in the
  nodes' order, and the two options that decide what a query out of the nodes' range does.
\<close>

record interp1d =
  nodes :: "pyfloat list"
  node_values :: "pyfloat list"
  fill_value :: pyfloat
  bounds_error :: bool

section \<open>The univariate distribution classes\<close>

text \<open>
  One constructor per class of \<open>probability.py\<close> whose central value is a scalar; the
  first field is always \<open>central_value\<close>.
  \<^item> \<open>UniformDistribution central_value half_range\<close>
  \<^item> \<open>DeltaDistribution central_value\<close>
  \<^item> \<open>NormalDistribution central_value standard_deviation\<close>
  \<^item> \<open>AsymmetricNormalDistribution central_value right_deviation left_deviation\<close>
  \<^item> \<open>HalfNormalDistribution central_value standard_deviation\<close>
  \<^item> \<open>GaussianUpperLimit central_value standard_deviation limit confidence_level\<close>
    (a subclass of \<open>HalfNormalDistribution\<close>)
  \<^item> \<open>NumericalDistribution central_value logpdf_interp ppf_interp\<close>
\<close>

datatype distribution =
    UniformDistribution pynum real
  | DeltaDistribution pynum
  | NormalDistribution pynum real
  | AsymmetricNormalDistribution pynum real real
  | HalfNormalDistribution pynum real
  | GaussianUpperLimit pynum real real real
  | NumericalDistribution pynum interp1d interp1d

fun central_value :: "distribution \<Rightarrow> pynum" where
  "central_value (UniformDistribution c h) = c"
| "central_value (DeltaDistribution c) = c"
| "central_value (NormalDistribution c s) = c"
| "central_value (AsymmetricNormalDistribution c r l) = c"
| "central_value (HalfNormalDistribution c s) = c"
| "central_value (GaussianUpperLimit c s lmt cl) = c"
| "central_value (NumericalDistribution c lp pp) = c"

text \<open>\<open>isinstance(pd, DeltaDistribution)\<close> and \<open>isinstance(pd, NormalDistribution)\<close>:
  neither class has a subclass.\<close>

fun is_Delta :: "distribution \<Rightarrow> bool" where
  "is_Delta (DeltaDistribution c) = True"
| "is_Delta _ = False"

fun is_Normal :: "distribution \<Rightarrow> bool" where
  "is_Normal (NormalDistribution c s) = True"
| "is_Normal _ = False"

text \<open>The attribute \<open>standard_deviation\<close>, which only three classes have.\<close>

fun standard_deviation :: "distribution \<Rightarrow> error + real" where
  "standard_deviation (NormalDistribution c s) = Inr s"
| "standard_deviation (HalfNormalDistribution c s) = Inr s"
| "standard_deviation (GaussianUpperLimit c s lmt cl) = Inr s"
| "standard_deviation _ = Inl AttributeError"

section \<open>Object identity: the store\<close>

text \<open>
  \<open>ProbabilityDistribution.__eq__\<close> and \<open>__hash__\<close> are those of \<open>id(self)\<close>: an instance
  is its identity. The store is the list of the objects allocated so far, a reference is
  an index into it, and a constructor call allocates the next index.
\<close>

type_synonym ref = nat
type_synonym store = "distribution list"

definition alloc :: "store \<Rightarrow> distribution \<Rightarrow> ref \<times> store" where
  "alloc h d = (length h, h @ [d])"

definition dist_eq :: "ref \<Rightarrow> ref \<Rightarrow> bool" where
  "dist_eq a b = (a = b)"

definition refs_ok :: "store \<Rightarrow> ref list \<Rightarrow> bool" where
  "refs_ok h refs = list_all (\<lambda>r. r < length h) refs"

section \<open>combine_distributions\<close>

text \<open>The \<open>for\<close> loop of \<open>combine_distributions\<close>: \<open>gaussians\<close> is the accumulator, the
  two \<open>raise\<close> statements end the loop with the error.\<close>

fun combine_loop :: "store \<Rightarrow> pynum \<Rightarrow> ref list \<Rightarrow> ref list \<Rightarrow> error + ref list" where
  "combine_loop h cv [] gaussians = Inr gaussians"
| "combine_loop h cv (pd # rest) gaussians =
     (if py_ne (central_value (h ! pd)) cv then Inl (ValueError msg_same_central)
      else if is_Delta (h ! pd) then combine_loop h cv rest gaussians
      else if is_Normal (h ! pd) then combine_loop h cv rest (gaussians @ [pd])
      else Inl (ValueError msg_only_normal))"

text \<open>\<open>sum([pd.standard_deviation**2 for pd in gaussians])\<close>\<close>

fun err_squared_of :: "store \<Rightarrow> ref list \<Rightarrow> error + real" where
  "err_squared_of h [] = Inr 0"
| "err_squared_of h (pd # rest) =
     (case standard_deviation (h ! pd) of
        Inl e \<Rightarrow> Inl e
      | Inr s \<Rightarrow> (case err_squared_of h rest of
                    Inl e \<Rightarrow> Inl e
                  | Inr t \<Rightarrow> Inr (s ^ 2 + t)))"

text \<open>\<open>NormalDistribution.__init__\<close> stores its two arguments and checks nothing.\<close>

definition NormalDistribution_init :: "store \<Rightarrow> pynum \<Rightarrow> real \<Rightarrow> ref \<times> store" where
  "NormalDistribution_init h c s = alloc h (NormalDistribution c s)"

definition combine_distributions :: "store \<Rightarrow> ref list \<Rightarrow> error + (ref \<times> store)" where
  "combine_distributions h probability_distributions =
     (if length probability_distributions = 1 then Inr (probability_distributions ! 0, h)
      else if probability_distributions = [] then Inl IndexError
      else
        let cv = central_value (h ! (probability_distributions ! 0)) in
        if \<not> is_float cv then Inl AssertionError
        else
          (case combine_loop h cv probability_distributions [] of
             Inl e \<Rightarrow> Inl e
           | Inr gaussians \<Rightarrow>
               (case err_squared_of h gaussians of
                  Inl e \<Rightarrow> Inl e
                | Inr err_squared \<Rightarrow>
                    (case math_sqrt err_squared of
                       Inl e \<Rightarrow> Inl e
                     | Inr sd \<Rightarrow> Inr (NormalDistribution_init h cv sd)))))"

text \<open>The standard deviations of the \<open>NormalDistribution\<close> objects of a list, in order.\<close>

definition normal_sds :: "distribution list \<Rightarrow> real list" where
  "normal_sds ds = concat (map (\<lambda>d. case d of NormalDistribution c s \<Rightarrow> [s] | _ \<Rightarrow> []) ds)"

subsection \<open>Stores used as concrete inputs\<close>

definition store3 :: store where
  "store3 = [NormalDistribution (PyFloat 5) 1, DeltaDistribution (PyFloat 5), NormalDistribution (PyFloat 5) 2]"

definition store_int :: store where
  "store_int = [NormalDistribution (PyInt 5) 1, NormalDistribution (PyInt 6) 1]"

definition store_mixed :: store where
  "store_mixed = [NormalDistribution (PyFloat 5) 1, UniformDistribution (PyFloat 5) 2,
                  NormalDistribution (PyFloat 6) 1]"

definition store_err :: store where
  "store_err = [NormalDistribution (PyFloat 5) 1, NormalDistribution (PyFloat 6) 1,
                UniformDistribution (PyFloat 5) 2, GaussianUpperLimit (PyInt 0) 1 1 (1/2)]"

definition store_delta :: store where
  "store_delta = [DeltaDistribution (PyFloat 3), DeltaDistribution (PyFloat 3)]"

section \<open>Densities of the primitive distributions\<close>

text \<open>
  \<open>scipy.stats.norm\<close>, as the library defines it: the standard density is
  \<open>exp(-x**2/2) / sqrt(2*pi)\<close>, its logarithm \<open>-x**2/2 - log(sqrt(2*pi))\<close>, and
  \<open>pdf(x, loc, scale) = pdf((x - loc)/scale) / scale\<close>,
  \<open>logpdf(x, loc, scale) = logpdf((x - loc)/scale) - log(scale)\<close>.
  For a scale that is not positive both return \<open>nan\<close>; neither raises.
\<close>

definition norm_pdf :: "real \<Rightarrow> real \<Rightarrow> real \<Rightarrow> pyfloat" where
  "norm_pdf x loc scale =
     (if 0 < scale then Fin (exp (- (((x - loc) / scale) ^ 2 / 2)) / sqrt (2 * pi) / scale)
      else NaN)"

definition norm_logpdf :: "real \<Rightarrow> real \<Rightarrow> real \<Rightarrow> pyfloat" where
  "norm_logpdf x loc scale =
     (if 0 < scale then Fin (- (((x - loc) / scale) ^ 2 / 2) - ln (sqrt (2 * pi)) - ln scale)
      else NaN)"

text \<open>\<open>math.log\<close> of a numpy scalar: \<open>nan\<close> and \<open>inf\<close> pass through, a value that is not
  positive raises.\<close>

fun math_log_f :: "pyfloat \<Rightarrow> error + pyfloat" where
  "math_log_f (Fin a) = (case math_log a of Inl e \<Rightarrow> Inl e | Inr v \<Rightarrow> Inr (Fin v))"
| "math_log_f PosInf = Inr PosInf"
| "math_log_f NegInf = Inl (ValueError msg_math_domain)"
| "math_log_f NaN = Inr NaN"

subsection \<open>UniformDistribution\<close>

text \<open>\<open>self.range = (central_value - half_range, central_value + half_range)\<close>\<close>

definition uniform_range :: "pynum \<Rightarrow> real \<Rightarrow> real \<times> real" where
  "uniform_range c half_range = (num_val c - half_range, num_val c + half_range)"

definition UniformDistribution_logpdf :: "pynum \<Rightarrow> real \<Rightarrow> real \<Rightarrow> error + pyfloat" where
  "UniformDistribution_logpdf c half_range x =
     (if x < fst (uniform_range c half_range) \<or> x \<ge> snd (uniform_range c half_range)
      then Inr (Fin 0)
      else (case math_log (2 * half_range) of
              Inl e \<Rightarrow> Inl e
            | Inr v \<Rightarrow> Inr (Fin (- v))))"

subsection \<open>DeltaDistribution\<close>

definition DeltaDistribution_logpdf :: "pynum \<Rightarrow> real \<Rightarrow> error + pyfloat" where
  "DeltaDistribution_logpdf c x = (if x = num_val c then Inr (Fin 0) else Inr NegInf)"

subsection \<open>NormalDistribution\<close>

definition NormalDistribution_logpdf :: "pynum \<Rightarrow> real \<Rightarrow> real \<Rightarrow> error + pyfloat" where
  "NormalDistribution_logpdf c sd x = Inr (norm_logpdf x (num_val c) sd)"

subsection \<open>AsymmetricNormalDistribution\<close>

definition msg_positive_deviations :: string where
  "msg_positive_deviations = ''Left and right standard deviations must be positive numbers''"

definition AsymmetricNormalDistribution_init :: "pynum \<Rightarrow> real \<Rightarrow> real \<Rightarrow> error + distribution" where
  "AsymmetricNormalDistribution_init c right_deviation left_deviation =
     (if right_deviation < 0 \<or> left_deviation < 0 then Inl (ValueError msg_positive_deviations)
      else Inr (AsymmetricNormalDistribution c right_deviation left_deviation))"

definition AsymmetricNormalDistribution_logpdf ::
    "pynum \<Rightarrow> real \<Rightarrow> real \<Rightarrow> real \<Rightarrow> error + pyfloat" where
  "AsymmetricNormalDistribution_logpdf c right_deviation left_deviation x =
     (let p_right = norm_pdf (num_val c) (num_val c) right_deviation;
          p_left = norm_pdf (num_val c) (num_val c) left_deviation
      in if x < num_val c
         then (case math_log_f (fdiv (fmul (Fin 2) p_right) (fadd p_left p_right)) of
                 Inl e \<Rightarrow> Inl e
               | Inr v \<Rightarrow> Inr (fadd v (norm_logpdf x (num_val c) left_deviation)))
         else (case math_log_f (fdiv (fmul (Fin 2) p_left) (fadd p_left p_right)) of
                 Inl e \<Rightarrow> Inl e
               | Inr v \<Rightarrow> Inr (fadd v (norm_logpdf x (num_val c) right_deviation))))"

subsection \<open>HalfNormalDistribution and GaussianUpperLimit\<close>

text \<open>\<open>np.sign\<close> is \<open>sgn\<close>; \<open>math.log(2)\<close> is \<open>ln 2\<close>.\<close>

definition HalfNormalDistribution_logpdf :: "pynum \<Rightarrow> real \<Rightarrow> real \<Rightarrow> error + pyfloat" where
  "HalfNormalDistribution_logpdf c sd x =
     (if sgn sd * (x - num_val c) < 0 then Inr NegInf
      else (case math_log 2 of
              Inl e \<Rightarrow> Inl e
            | Inr v \<Rightarrow> Inr (fadd (Fin v) (norm_logpdf x (num_val c) \<bar>sd\<bar>))))"

definition msg_confidence_level :: string where
  "msg_confidence_level = ''Confidence level should be between 0 und 1''"

text \<open>
  \<open>GaussianUpperLimit.get_standard_deviation\<close>. The quantile function
  \<open>scipy.stats.norm.ppf\<close> of the standard normal distribution is the parameter \<open>norm_ppf\<close>:
  the code only multiplies its value by the limit.
\<close>

definition get_standard_deviation :: "(real \<Rightarrow> real) \<Rightarrow> real \<Rightarrow> real \<Rightarrow> real" where
  "get_standard_deviation norm_ppf limit confidence_level =
     limit * norm_ppf (0.5 + confidence_level / 2)"

text \<open>\<open>GaussianUpperLimit.__init__\<close>: the check, then \<open>HalfNormalDistribution.__init__\<close>
  with \<open>central_value=0\<close> (the integer literal), then the two attributes of its own.\<close>

definition GaussianUpperLimit_init :: "(real \<Rightarrow> real) \<Rightarrow> real \<Rightarrow> real \<Rightarrow> error + distribution" where
  "GaussianUpperLimit_init norm_ppf limit confidence_level =
     (if confidence_level > 1 \<or> confidence_level < 0 then Inl (ValueError msg_confidence_level)
      else Inr (GaussianUpperLimit (PyInt 0)
                  (get_standard_deviation norm_ppf limit confidence_level)
                  limit confidence_level))"

text \<open>The attributes \<open>central_value\<close> and \<open>standard_deviation\<close> that
  \<open>HalfNormalDistribution.__init__\<close> sets, read off an instance of the class or of its
  subclass.\<close>

fun half_normal_fields :: "distribution \<Rightarrow> (pynum \<times> real) option" where
  "half_normal_fields (HalfNormalDistribution c sd) = Some (c, sd)"
| "half_normal_fields (GaussianUpperLimit c sd lmt cl) = Some (c, sd)"
| "half_normal_fields _ = None"

section \<open>NumericalDistribution\<close>

subsection \<open>scipy.interpolate.interp1d, linear\<close>

text \<open>
  The library's linear interpolant. The constructor refuses arrays of different lengths
  and arrays of fewer than two entries, and sorts the nodes (\<open>assume_sorted=False\<close>),
  carrying the values along; \<open>nan\<close> sorts last and ties keep their order. A query first
  passes the bounds check: with \<open>bounds_error\<close> set, a query below the first node or above
  the last raises \<open>ValueError\<close>. \<open>bounds_error\<close> is set unless the caller passes
  \<open>bounds_error=False\<close> or \<open>fill_value="extrapolate"\<close>; passing a number as \<open>fill_value\<close>
  leaves it set. Inside the range the value is that of the two-point formula on the
  interval that \<open>searchsorted\<close> finds.
\<close>

definition msg_equal_length :: string where
  "msg_equal_length = ''x and y arrays must be equal in length along interpolation axis.''"

definition msg_two_entries :: string where
  "msg_two_entries = ''x and y arrays must have at least 2 entries''"

definition msg_below_range :: string where
  "msg_below_range = ''A value in x_new is below the interpolation range.''"

definition msg_above_range :: string where
  "msg_above_range = ''A value in x_new is above the interpolation range.''"

fun node_le :: "pyfloat \<Rightarrow> pyfloat \<Rightarrow> bool" where
  "node_le NaN NaN = True"
| "node_le NaN _ = False"
| "node_le _ NaN = True"
| "node_le a b = (\<not> flt b a)"

fun insort_node :: "pyfloat \<times> pyfloat \<Rightarrow> (pyfloat \<times> pyfloat) list \<Rightarrow> (pyfloat \<times> pyfloat) list" where
  "insort_node p [] = [p]"
| "insort_node p (q # qs) = (if node_le (fst p) (fst q) then p # q # qs else q # insort_node p qs)"

definition sort_nodes :: "(pyfloat \<times> pyfloat) list \<Rightarrow> (pyfloat \<times> pyfloat) list" where
  "sort_nodes ps = foldr insort_node ps []"

definition interp1d_init ::
    "pyfloat list \<Rightarrow> pyfloat list \<Rightarrow> pyfloat \<Rightarrow> bool \<Rightarrow> error + interp1d" where
  "interp1d_init xs ys fill berr =
     (if length xs \<noteq> length ys then Inl (ValueError msg_equal_length)
      else if length xs < 2 then Inl (ValueError msg_two_entries)
      else let ps = sort_nodes (zip xs ys) in
        Inr \<lparr> nodes = map fst ps, node_values = map snd ps,
              fill_value = fill, bounds_error = berr \<rparr>)"

text \<open>\<open>np.searchsorted(self.x, x_new)\<close>: the number of nodes below the query.\<close>

definition searchsorted :: "pyfloat list \<Rightarrow> pyfloat \<Rightarrow> nat" where
  "searchsorted xs q = length (takeWhile (\<lambda>v. flt v q) xs)"

text \<open>\<open>interp1d._call_linear\<close>: the index is clipped to \<open>1 .. len(x) - 1\<close>; the slope is a
  numpy division, which gives \<open>inf\<close> or \<open>nan\<close> on an interval of width zero.\<close>

definition call_linear :: "interp1d \<Rightarrow> pyfloat \<Rightarrow> pyfloat" where
  "call_linear f q =
     (let i = max 1 (min (searchsorted (nodes f) q) (length (nodes f) - 1));
          lo = i - 1; hi = i;
          x_lo = nodes f ! lo; x_hi = nodes f ! hi;
          y_lo = node_values f ! lo; y_hi = node_values f ! hi;
          slope = fdiv (fsub y_hi y_lo) (fsub x_hi x_lo)
      in fadd (fmul slope (fsub q x_lo)) y_lo)"

definition interp1d_call :: "interp1d \<Rightarrow> real \<Rightarrow> error + pyfloat" where
  "interp1d_call f x_new =
     (let below = flt (Fin x_new) (hd (nodes f));
          above = flt (last (nodes f)) (Fin x_new)
      in if bounds_error f \<and> below then Inl (ValueError msg_below_range)
         else if bounds_error f \<and> above then Inl (ValueError msg_above_range)
         else if below \<or> above then Inr (fill_value f)
         else Inr (call_linear f (Fin x_new)))"

subsection \<open>The constructor and logpdf\<close>

definition msg_empty_argmax :: string where
  "msg_empty_argmax = ''attempt to get argmax of an empty sequence''"

text \<open>\<open>np.argmax\<close>: the first index of the largest entry.\<close>

fun argmax_from :: "real list \<Rightarrow> nat \<Rightarrow> nat \<Rightarrow> real \<Rightarrow> nat" where
  "argmax_from [] i best bv = best"
| "argmax_from (v # vs) i best bv =
     (if bv < v then argmax_from vs (Suc i) i v else argmax_from vs (Suc i) best bv)"

definition np_argmax :: "real list \<Rightarrow> error + nat" where
  "np_argmax ys = (case ys of [] \<Rightarrow> Inl (ValueError msg_empty_argmax)
                   | v # vs \<Rightarrow> Inr (argmax_from vs 1 0 v))"

text \<open>\<open>np.cumsum\<close>\<close>

fun cumsum_from :: "pyfloat \<Rightarrow> pyfloat list \<Rightarrow> pyfloat list" where
  "cumsum_from acc [] = []"
| "cumsum_from acc (v # vs) = fadd acc v # cumsum_from (fadd acc v) vs"

definition np_cumsum :: "pyfloat list \<Rightarrow> pyfloat list" where
  "np_cumsum vs = cumsum_from (Fin 0) vs"

text \<open>The mode \<open>x[np.argmax(y)]\<close>, a numpy float.\<close>

definition mode_of :: "real list \<Rightarrow> real list \<Rightarrow> error + pynum" where
  "mode_of x y =
     (case np_argmax y of
        Inl e \<Rightarrow> Inl e
      | Inr i \<Rightarrow> if i < length x then Inr (PyFloat (x ! i)) else Inl IndexError)"

text \<open>\<open>_y_norm = y/sum(y)*_x_range\<close>, elementwise on numpy arrays.\<close>

definition y_norm_of :: "real list \<Rightarrow> real \<Rightarrow> pyfloat list" where
  "y_norm_of y x_range = map (\<lambda>v. fmul (fdiv (Fin v) (Fin (sum_list y))) (Fin x_range)) y"

text \<open>\<open>_cdf = np.cumsum(_y_norm)/_x_range\<close>, then \<open>_cdf[0] = 0.\<close> and \<open>_cdf[-1] = 1.\<close>
  The two assignments are reached only after the first \<open>interp1d\<close> has accepted \<open>x\<close> and
  \<open>y\<close>, so \<open>_cdf\<close> has at least two entries there.\<close>

definition cdf_of :: "pyfloat list \<Rightarrow> real \<Rightarrow> pyfloat list" where
  "cdf_of y_norm x_range =
     (let c = map (\<lambda>v. fdiv v (Fin x_range)) (np_cumsum y_norm);
          c0 = c[0 := Fin 0]
      in c0[length c0 - 1 := Fin 1])"

definition NumericalDistribution_init ::
    "real list \<Rightarrow> real list \<Rightarrow> pynum option \<Rightarrow> error + distribution" where
  "NumericalDistribution_init x y central =
     (case (case central of Some c \<Rightarrow> Inr c | None \<Rightarrow> mode_of x y) of
        Inl e \<Rightarrow> Inl e
      | Inr cv \<Rightarrow>
          if x = [] then Inl IndexError
          else
            let x_range = last x - hd x;
                y_norm = y_norm_of y x_range
            in (case interp1d_init (map Fin x) (map np_log y_norm) NegInf True of
                  Inl e \<Rightarrow> Inl e
                | Inr logpdf_interp \<Rightarrow>
                    (case interp1d_init (cdf_of y_norm x_range) (map Fin x) NaN True of
                       Inl e \<Rightarrow> Inl e
                     | Inr ppf_interp \<Rightarrow>
                         Inr (NumericalDistribution cv logpdf_interp ppf_interp))))"

definition NumericalDistribution_logpdf :: "interp1d \<Rightarrow> real \<Rightarrow> error + pyfloat" where
  "NumericalDistribution_logpdf logpdf_interp x = interp1d_call logpdf_interp x"

section \<open>Method dispatch\<close>

text \<open>\<open>d.logpdf(x)\<close>: each class has its own method, \<open>GaussianUpperLimit\<close> inherits that of
  \<open>HalfNormalDistribution\<close>.\<close>

fun logpdf :: "distribution \<Rightarrow> real \<Rightarrow> error + pyfloat" where
  "logpdf (UniformDistribution c h) x = UniformDistribution_logpdf c h x"
| "logpdf (DeltaDistribution c) x = DeltaDistribution_logpdf c x"
| "logpdf (NormalDistribution c sd) x = NormalDistribution_logpdf c sd x"
| "logpdf (AsymmetricNormalDistribution c r l) x = AsymmetricNormalDistribution_logpdf c r l x"
| "logpdf (HalfNormalDistribution c sd) x = HalfNormalDistribution_logpdf c sd x"
| "logpdf (GaussianUpperLimit c sd lmt cl) x = HalfNormalDistribution_logpdf c sd x"
| "logpdf (NumericalDistribution c lp pp) x = NumericalDistribution_logpdf lp x"

text \<open>The density that a log-density stands for: \<open>exp\<close> of a number, \<open>0\<close> for \<open>-inf\<close>.\<close>

fun density_of :: "error + pyfloat \<Rightarrow> real" where
  "density_of (Inr (Fin v)) = exp v"
| "density_of _ = 0"

section \<open>Closed forms of the Gaussian densities\<close>

text \<open>The number that \<open>norm.logpdf(x, m, s)\<close> computes for a positive scale \<open>s\<close>: the
  logarithm of the Gaussian density with mean \<open>m\<close> and standard deviation \<open>s\<close>.\<close>

definition normal_log_density :: "real \<Rightarrow> real \<Rightarrow> real \<Rightarrow> real" where
  "normal_log_density m s x = - (((x - m) / s) ^ 2 / 2) - ln (sqrt (2 * pi)) - ln s"

text \<open>The density of that Gaussian at its mode.\<close>

definition peak_density :: "real \<Rightarrow> real \<Rightarrow> real" where
  "peak_density m s = exp (normal_log_density m s m)"

text \<open>The number that \<open>AsymmetricNormalDistribution.logpdf\<close> computes for positive
  deviations, written with the closed forms above.\<close>

definition two_piece_log_density :: "real \<Rightarrow> real \<Rightarrow> real \<Rightarrow> real \<Rightarrow> real" where
  "two_piece_log_density m r l x =
     (let p_right = exp (normal_log_density m r m); p_left = exp (normal_log_density m l m)
      in if x < m then ln (2 * p_right / (p_left + p_right)) + normal_log_density m l x
         else ln (2 * p_left / (p_left + p_right)) + normal_log_density m r x)"

section \<open>Sampling\<close>

text \<open>
  The process-wide generator of \<open>np.random\<close> is an explicit state: the stream of the
  uniform draws in \<open>[0, 1)\<close>, the stream of the standard normal draws, and how many of
  each have been consumed. \<open>np.random.uniform(low, high, size)\<close> is
  \<open>low + (high - low) * u\<close> and \<open>np.random.normal(loc, scale, size)\<close> is
  \<open>loc + scale * z\<close>, for one draw when \<open>size\<close> is \<open>None\<close> and for \<open>size\<close> draws in an array
  otherwise; a negative scale raises \<open>ValueError\<close>.
\<close>

record rng =
  uniform_stream :: "nat \<Rightarrow> real"
  normal_stream :: "nat \<Rightarrow> real"
  uniform_pos :: nat
  normal_pos :: nat

datatype 'a sample = Scalar 'a | Array "'a list"

fun smap :: "('a \<Rightarrow> 'b) \<Rightarrow> 'a sample \<Rightarrow> 'b sample" where
  "smap f (Scalar v) = Scalar (f v)"
| "smap f (Array vs) = Array (map f vs)"

definition msg_negative_scale :: string where
  "msg_negative_scale = ''scale < 0''"

definition np_random_uniform :: "real \<Rightarrow> real \<Rightarrow> nat option \<Rightarrow> rng \<Rightarrow> real sample \<times> rng" where
  "np_random_uniform low high sz g =
     (case sz of
        None \<Rightarrow> (Scalar (low + (high - low) * uniform_stream g (uniform_pos g)),
                 g\<lparr>uniform_pos := uniform_pos g + 1\<rparr>)
      | Some n \<Rightarrow> (Array (map (\<lambda>i. low + (high - low) * uniform_stream g i)
                             [uniform_pos g ..< uniform_pos g + n]),
                   g\<lparr>uniform_pos := uniform_pos g + n\<rparr>))"

definition np_random_normal ::
    "real \<Rightarrow> real \<Rightarrow> nat option \<Rightarrow> rng \<Rightarrow> error + (real sample \<times> rng)" where
  "np_random_normal loc scale sz g =
     (if scale < 0 then Inl (ValueError msg_negative_scale)
      else (case sz of
              None \<Rightarrow> Inr (Scalar (loc + scale * normal_stream g (normal_pos g)),
                           g\<lparr>normal_pos := normal_pos g + 1\<rparr>)
            | Some n \<Rightarrow> Inr (Array (map (\<lambda>i. loc + scale * normal_stream g i)
                                       [normal_pos g ..< normal_pos g + n]),
                             g\<lparr>normal_pos := normal_pos g + n\<rparr>)))"

definition UniformDistribution_get_random ::
    "pynum \<Rightarrow> real \<Rightarrow> nat option \<Rightarrow> rng \<Rightarrow> error + (real sample \<times> rng)" where
  "UniformDistribution_get_random c half_range sz g =
     Inr (np_random_uniform (fst (uniform_range c half_range)) (snd (uniform_range c half_range))
            sz g)"

text \<open>\<open>central_value * np.ones(size)\<close> is an array of \<open>size\<close> copies.\<close>

definition DeltaDistribution_get_random ::
    "pynum \<Rightarrow> nat option \<Rightarrow> rng \<Rightarrow> error + (real sample \<times> rng)" where
  "DeltaDistribution_get_random c sz g =
     (case sz of
        None \<Rightarrow> Inr (Scalar (num_val c), g)
      | Some n \<Rightarrow> Inr (Array (map (\<lambda>one. num_val c * one) (replicate n 1)), g))"

definition NormalDistribution_get_random ::
    "pynum \<Rightarrow> real \<Rightarrow> nat option \<Rightarrow> rng \<Rightarrow> error + (real sample \<times> rng)" where
  "NormalDistribution_get_random c sd sz g = np_random_normal (num_val c) sd sz g"

text \<open>
  \<open>AsymmetricNormalDistribution.get_random\<close> takes \<open>size\<close> and never reads it: the three
  calls of \<open>np.random\<close> in its body pass no size. The division is one of Python floats,
  which raises on a zero divisor.
\<close>

definition AsymmetricNormalDistribution_get_random ::
    "pynum \<Rightarrow> real \<Rightarrow> real \<Rightarrow> nat option \<Rightarrow> rng \<Rightarrow> error + (real sample \<times> rng)" where
  "AsymmetricNormalDistribution_get_random c right_deviation left_deviation sz g =
     (case np_random_uniform 0 1 None g of
        (r, g1) \<Rightarrow>
          if right_deviation + left_deviation = 0 then Inl ZeroDivisionError
          else
            let a = \<bar>left_deviation / (right_deviation + left_deviation)\<bar> in
            if (case r of Scalar rv \<Rightarrow> rv > a | Array rs \<Rightarrow> False)
            then (case np_random_normal 0 right_deviation None g1 of
                    Inl e \<Rightarrow> Inl e
                  | Inr (x, g2) \<Rightarrow> Inr (smap (\<lambda>v. num_val c + \<bar>v\<bar>) x, g2))
            else (case np_random_normal 0 left_deviation None g1 of
                    Inl e \<Rightarrow> Inl e
                  | Inr (x, g2) \<Rightarrow> Inr (smap (\<lambda>v. num_val c - \<bar>v\<bar>) x, g2)))"

definition HalfNormalDistribution_get_random ::
    "pynum \<Rightarrow> real \<Rightarrow> nat option \<Rightarrow> rng \<Rightarrow> error + (real sample \<times> rng)" where
  "HalfNormalDistribution_get_random c sd sz g =
     (case np_random_normal 0 \<bar>sd\<bar> sz g of
        Inl e \<Rightarrow> Inl e
      | Inr (x, g1) \<Rightarrow> Inr (smap (\<lambda>v. num_val c + sgn sd * \<bar>v\<bar>) x, g1))"

text \<open>Calling an interpolant on an array evaluates every entry; the first entry out of
  range raises.\<close>

fun interp1d_call_all :: "interp1d \<Rightarrow> real list \<Rightarrow> error + pyfloat list" where
  "interp1d_call_all f [] = Inr []"
| "interp1d_call_all f (q # qs) =
     (case interp1d_call f q of
        Inl e \<Rightarrow> Inl e
      | Inr v \<Rightarrow> (case interp1d_call_all f qs of
                    Inl e \<Rightarrow> Inl e
                  | Inr vs \<Rightarrow> Inr (v # vs)))"

definition NumericalDistribution_get_random ::
    "interp1d \<Rightarrow> nat option \<Rightarrow> rng \<Rightarrow> error + (pyfloat sample \<times> rng)" where
  "NumericalDistribution_get_random ppf_interp sz g =
     (case np_random_uniform 0 1 sz g of
        (Scalar r, g1) \<Rightarrow>
          (case interp1d_call ppf_interp r of
             Inl e \<Rightarrow> Inl e
           | Inr v \<Rightarrow> Inr (Scalar v, g1))
      | (Array rs, g1) \<Rightarrow>
          (case interp1d_call_all ppf_interp rs of
             Inl e \<Rightarrow> Inl e
           | Inr vs \<Rightarrow> Inr (Array vs, g1)))"

text \<open>\<open>d.get_random(size)\<close>, with the samples of every class as \<open>pyfloat\<close>.\<close>

definition as_pyfloat :: "error + (real sample \<times> rng) \<Rightarrow> error + (pyfloat sample \<times> rng)" where
  "as_pyfloat res = (case res of Inl e \<Rightarrow> Inl e | Inr (x, g) \<Rightarrow> Inr (smap Fin x, g))"

fun get_random :: "distribution \<Rightarrow> nat option \<Rightarrow> rng \<Rightarrow> error + (pyfloat sample \<times> rng)" where
  "get_random (UniformDistribution c h) sz g = as_pyfloat (UniformDistribution_get_random c h sz g)"
| "get_random (DeltaDistribution c) sz g = as_pyfloat (DeltaDistribution_get_random c sz g)"
| "get_random (NormalDistribution c sd) sz g = as_pyfloat (NormalDistribution_get_random c sd sz g)"
| "get_random (AsymmetricNormalDistribution c r l) sz g =
     as_pyfloat (AsymmetricNormalDistribution_get_random c r l sz g)"
| "get_random (HalfNormalDistribution c sd) sz g =
     as_pyfloat (HalfNormalDistribution_get_random c sd sz g)"
| "get_random (GaussianUpperLimit c sd lmt cl) sz g =
     as_pyfloat (HalfNormalDistribution_get_random c sd sz g)"
| "get_random (NumericalDistribution c lp pp) sz g = NumericalDistribution_get_random pp sz g"

text \<open>The shape of a sample: \<open>None\<close> for a scalar, the length for an array.\<close>

fun sample_shape :: "'a sample \<Rightarrow> nat option" where
  "sample_shape (Scalar v) = None"
| "sample_shape (Array vs) = Some (length vs)"

subsection \<open>A concrete generator and a concrete table\<close>

definition rng0 :: rng where
  "rng0 = \<lparr> uniform_stream = (\<lambda>i. 3 / 4), normal_stream = (\<lambda>i. - 2),
           uniform_pos = 0, normal_pos = 0 \<rparr>"

section \<open>The finite case of the tables of a NumericalDistribution\<close>

text \<open>
  When the sum of \<open>y\<close> and the range of \<open>x\<close> are not zero, every entry of \<open>_cdf\<close> is a
  number. The definitions below compute the same entries and the same interpolated value
  over the reals; the lemmas \<open>cdf_of_Fin\<close> and \<open>call_linear_Fin\<close> connect them
  with \<open>cdf_of\<close> and \<open>call_linear\<close>.
\<close>

fun rcumsum :: "real \<Rightarrow> real list \<Rightarrow> real list" where
  "rcumsum acc [] = []"
| "rcumsum acc (v # vs) = (acc + v) # rcumsum (acc + v) vs"

definition cdf_real :: "real list \<Rightarrow> real \<Rightarrow> real list" where
  "cdf_real y R =
     (let c = map (\<lambda>v. v / R) (rcumsum 0 (map (\<lambda>v. v / sum_list y * R) y));
          c0 = c[0 := 0]
      in c0[length c0 - 1 := 1])"

definition bracket_index :: "real list \<Rightarrow> real \<Rightarrow> nat" where
  "bracket_index cs q = max 1 (min (length (takeWhile (\<lambda>v. v < q) cs)) (length cs - 1))"

definition lin_interp :: "real list \<Rightarrow> real list \<Rightarrow> real \<Rightarrow> real" where
  "lin_interp cs xs q =
     (let i = bracket_index cs q
      in (xs ! i - xs ! (i - 1)) / (cs ! i - cs ! (i - 1)) * (q - cs ! (i - 1)) + xs ! (i - 1))"

text \<open>The shape of the table of the quantile interpolant that the proofs use: at least
  two nodes, sorted, \<open>0\<close> first and \<open>1\<close> last, the first and the last interval of positive
  width, and strictly increasing values.\<close>

definition quantile_table :: "real list \<Rightarrow> real list \<Rightarrow> bool" where
  "quantile_table cs xs \<longleftrightarrow>
     2 \<le> length cs \<and> length xs = length cs \<and> sorted cs \<and> sorted_wrt (<) xs \<and>
     cs ! 0 = 0 \<and> cs ! (length cs - 1) = 1 \<and> 0 < cs ! 1 \<and> cs ! (length cs - 2) < 1"

subsection \<open>Concrete tables\<close>

text \<open>The two interpolants of \<open>NumericalDistribution([0, 1], [1, 1])\<close>.\<close>

definition table01 :: interp1d where
  "table01 = \<lparr> nodes = [Fin 0, Fin 1], node_values = [Fin (ln (1 / 2)), Fin (ln (1 / 2))],
               fill_value = NegInf, bounds_error = True \<rparr>"

definition ppf01 :: interp1d where
  "ppf01 = \<lparr> nodes = [Fin 0, Fin 1], node_values = [Fin 0, Fin 1],
             fill_value = NaN, bounds_error = True \<rparr>"

text \<open>The two interpolants of \<open>NumericalDistribution([0, 1, 2, 3], [0, 0, 1, 1])\<close>.\<close>

definition logpdf_table0011 :: interp1d where
  "logpdf_table0011 = \<lparr> nodes = [Fin 0, Fin 1, Fin 2, Fin 3],
       node_values = [NegInf, NegInf, Fin (ln (3 / 2)), Fin (ln (3 / 2))],
       fill_value = NegInf, bounds_error = True \<rparr>"

definition ppf_table0011 :: interp1d where
  "ppf_table0011 = \<lparr> nodes = [Fin 0, Fin 0, Fin (1 / 2), Fin 1],
       node_values = [Fin 0, Fin 1, Fin 2, Fin 3],
       fill_value = NaN, bounds_error = True \<rparr>"

section \<open>MultivariateNormalDistribution\<close>

subsection \<open>Determinant, inverse and quadratic forms\<close>

text \<open>
  A vector is the list of its entries, a matrix the list of its rows. The determinant
  (\<open>np.linalg.det\<close>) is the expansion along the first column, computed on the entries as a
  function of the two indices: \<open>skip i\<close> renumbers the rows that remain when row \<open>i\<close> is
  struck out, \<open>minor i A\<close> strikes out row \<open>i\<close> and the first column.
\<close>

type_synonym vec = "real list"
type_synonym mat = "real list list"

definition skip :: "nat \<Rightarrow> nat \<Rightarrow> nat" where
  "skip i k = (if k < i then k else Suc k)"

definition minor :: "nat \<Rightarrow> (nat \<Rightarrow> nat \<Rightarrow> real) \<Rightarrow> nat \<Rightarrow> nat \<Rightarrow> real" where
  "minor i A = (\<lambda>r c. A (skip i r) (Suc c))"

fun det_fn :: "nat \<Rightarrow> (nat \<Rightarrow> nat \<Rightarrow> real) \<Rightarrow> real" where
  "det_fn 0 A = 1"
| "det_fn (Suc n) A = (\<Sum>i<Suc n. (- 1) ^ i * A i 0 * det_fn n (minor i A))"

definition mat_fn :: "mat \<Rightarrow> nat \<Rightarrow> nat \<Rightarrow> real" where
  "mat_fn M = (\<lambda>i j. M ! i ! j)"

definition vec_fn :: "vec \<Rightarrow> nat \<Rightarrow> real" where
  "vec_fn v = (\<lambda>i. v ! i)"

definition det :: "mat \<Rightarrow> real" where
  "det M = det_fn (length M) (mat_fn M)"

text \<open>The inverse by the adjugate formula: entry \<open>(i, j)\<close> is the cofactor of \<open>(j, i)\<close> over
  the determinant. The squared Mahalanobis distance of scipy is the quadratic form of
  the inverse.\<close>

definition minor2 :: "nat \<Rightarrow> nat \<Rightarrow> (nat \<Rightarrow> nat \<Rightarrow> real) \<Rightarrow> nat \<Rightarrow> nat \<Rightarrow> real" where
  "minor2 p q A = (\<lambda>i j. A (skip p i) (skip q j))"

definition inv_fn :: "nat \<Rightarrow> (nat \<Rightarrow> nat \<Rightarrow> real) \<Rightarrow> nat \<Rightarrow> nat \<Rightarrow> real" where
  "inv_fn n A i j = (- 1) ^ (i + j) * det_fn (n - 1) (minor2 j i A) / det_fn n A"

definition maha_fn :: "nat \<Rightarrow> (nat \<Rightarrow> nat \<Rightarrow> real) \<Rightarrow> (nat \<Rightarrow> real) \<Rightarrow> real" where
  "maha_fn n A y = (\<Sum>i<n. \<Sum>j<n. y i * inv_fn n A i j * y j)"

definition mahalanobis :: "mat \<Rightarrow> vec \<Rightarrow> real" where
  "mahalanobis M y = maha_fn (length M) (mat_fn M) (vec_fn y)"

text \<open>Shape and symmetry of a matrix, and its leading principal submatrices.\<close>

definition square :: "mat \<Rightarrow> bool" where
  "square M = list_all (\<lambda>row. length row = length M) M"

definition symmetric :: "mat \<Rightarrow> bool" where
  "symmetric M = list_all (\<lambda>i. list_all (\<lambda>j. M ! i ! j = M ! j ! i) [0..<length M]) [0..<length M]"

definition leading :: "nat \<Rightarrow> mat \<Rightarrow> mat" where
  "leading k M = map (take k) (take k M)"

definition leading_minors_positive :: "mat \<Rightarrow> bool" where
  "leading_minors_positive M = list_all (\<lambda>k. 0 < det (leading k M)) [1..<Suc (length M)]"

text \<open>
  Positive definiteness as the claim means it: a square symmetric matrix whose
  quadratic form is positive at every vector that is not zero.
\<close>

definition quad_form :: "mat \<Rightarrow> vec \<Rightarrow> real" where
  "quad_form M v = (\<Sum>i<length M. \<Sum>j<length M. v ! i * M ! i ! j * v ! j)"

definition positive_definite :: "mat \<Rightarrow> bool" where
  "positive_definite M \<longleftrightarrow>
     square M \<and> symmetric M \<and>
     (\<forall>v. length v = length M \<and> (\<exists>i<length M. v ! i \<noteq> 0) \<longrightarrow> 0 < quad_form M v)"

text \<open>The same notions on the entries as a function, and the operations the proofs go
  through: scaling row \<open>i\<close> by \<open>r i\<close> and column \<open>j\<close> by \<open>c j\<close>, subtracting multiples of
  row 0 from the rows below it, and the Schur complement of the top left entry.\<close>

definition quad :: "nat \<Rightarrow> (nat \<Rightarrow> nat \<Rightarrow> real) \<Rightarrow> (nat \<Rightarrow> real) \<Rightarrow> real" where
  "quad n A v = (\<Sum>i<n. \<Sum>j<n. v i * A i j * v j)"

definition pos_def :: "nat \<Rightarrow> (nat \<Rightarrow> nat \<Rightarrow> real) \<Rightarrow> bool" where
  "pos_def n A \<longleftrightarrow> (\<forall>v. (\<exists>i<n. v i \<noteq> 0) \<longrightarrow> 0 < quad n A v)"

definition sym_fn :: "nat \<Rightarrow> (nat \<Rightarrow> nat \<Rightarrow> real) \<Rightarrow> bool" where
  "sym_fn n A \<longleftrightarrow> (\<forall>i<n. \<forall>j<n. A i j = A j i)"

definition scaled :: "(nat \<Rightarrow> real) \<Rightarrow> (nat \<Rightarrow> real) \<Rightarrow> (nat \<Rightarrow> nat \<Rightarrow> real) \<Rightarrow> nat \<Rightarrow> nat \<Rightarrow> real" where
  "scaled r c A = (\<lambda>i j. r i * c j * A i j)"

definition elim_rows :: "nat \<Rightarrow> (nat \<Rightarrow> real) \<Rightarrow> (nat \<Rightarrow> nat \<Rightarrow> real) \<Rightarrow> nat \<Rightarrow> nat \<Rightarrow> real" where
  "elim_rows m al A = (\<lambda>i j. if 0 < i \<and> i < m then A i j - al i * A 0 j else A i j)"

definition schur :: "(nat \<Rightarrow> nat \<Rightarrow> real) \<Rightarrow> nat \<Rightarrow> nat \<Rightarrow> real" where
  "schur A = (\<lambda>i j. A (Suc i) (Suc j) - A (Suc i) 0 / A 0 0 * A 0 (Suc j))"

subsection \<open>numpy's array operations\<close>

text \<open>\<open>np.diag\<close>, \<open>np.outer\<close> and the elementwise \<open>/\<close> and \<open>-\<close> on arrays of the same
  shape.\<close>

definition np_diag :: "mat \<Rightarrow> vec" where
  "np_diag M = map (\<lambda>i. M ! i ! i) [0..<length M]"

definition np_outer :: "vec \<Rightarrow> vec \<Rightarrow> mat" where
  "np_outer u v = map (\<lambda>a. map (\<lambda>b. a * b) v) u"

definition vec_div :: "vec \<Rightarrow> vec \<Rightarrow> vec" where
  "vec_div x e = map2 (/) x e"

definition vec_sub :: "vec \<Rightarrow> vec \<Rightarrow> vec" where
  "vec_sub x m = map2 (-) x m"

definition mat_div :: "mat \<Rightarrow> mat \<Rightarrow> mat" where
  "mat_div M S = map2 (\<lambda>row srow. map2 (/) row srow) M S"

subsection \<open>scipy.stats.multivariate_normal.logpdf\<close>

text \<open>
  The ordinary log-density of the multivariate normal distribution with mean \<open>mean\<close> and
  covariance \<open>cov\<close> of dimension \<open>k\<close>:
  \<open>-(k*log(2*pi) + log(det(cov)) + (x - mean)^T cov^-1 (x - mean)) / 2\<close>.
\<close>

definition mvn_log_density :: "vec \<Rightarrow> vec \<Rightarrow> mat \<Rightarrow> real" where
  "mvn_log_density x mean cov =
     - (real (length cov) * ln (2 * pi) + ln (det cov) + mahalanobis cov (vec_sub x mean)) / 2"

text \<open>
  The library function computes that value for a symmetric positive-definite covariance,
  and raises for a symmetric covariance that is singular or not positive semidefinite;
  positive definiteness is decided here by the leading principal minors. What the
  library does with a covariance that is not symmetric, or with operands of other shapes
  (it broadcasts), is not modelled.
\<close>

definition msg_not_positive_definite :: string where
  "msg_not_positive_definite = ''the input matrix must be positive definite''"

definition msg_not_finite :: string where
  "msg_not_finite = ''array must not contain infs or NaNs''"

definition msg_not_symmetric :: string where
  "msg_not_symmetric = ''covariance not square and symmetric''"

definition msg_shape :: string where
  "msg_shape = ''operands of other shapes than the covariance''"

definition scipy_mvn_logpdf :: "vec \<Rightarrow> vec \<Rightarrow> mat \<Rightarrow> error + real" where
  "scipy_mvn_logpdf x mean cov =
     (if \<not> square cov \<or> \<not> symmetric cov then Inl (NotModelled msg_not_symmetric)
      else if length x \<noteq> length cov \<or> length mean \<noteq> length cov then Inl (NotModelled msg_shape)
      else if \<not> leading_minors_positive cov then Inl (ValueError msg_not_positive_definite)
      else Inr (- (real (length cov) * ln (2 * pi) + ln (det cov) +
                   mahalanobis cov (vec_sub x mean)) / 2))"

subsection \<open>The class\<close>

record mvn =
  mv_central_value :: vec
  covariance :: mat

text \<open>\<open>__init__\<close> asserts \<open>np.all(np.linalg.eigvals(covariance) > 0)\<close>; the test on the
  eigenvalues is the parameter \<open>eigvals_positive\<close>.\<close>

definition MultivariateNormalDistribution_init ::
    "(mat \<Rightarrow> bool) \<Rightarrow> vec \<Rightarrow> mat \<Rightarrow> error + mvn" where
  "MultivariateNormalDistribution_init eigvals_positive central cov =
     (if eigvals_positive cov then Inr \<lparr> mv_central_value = central, covariance = cov \<rparr>
      else Inl AssertionError)"

text \<open>
  \<open>logpdf\<close>. \<open>np.sqrt\<close> of a diagonal entry that is negative is \<open>nan\<close> and the division by
  a zero \<open>err\<close> is \<open>inf\<close> or \<open>nan\<close>; scipy refuses such arrays with a \<open>ValueError\<close>. The
  quotient of the two determinants is a division of numpy scalars and \<open>math.log\<close> raises
  on a value that is not positive.
\<close>

definition MultivariateNormalDistribution_logpdf :: "mvn \<Rightarrow> vec \<Rightarrow> error + pyfloat" where
  "MultivariateNormalDistribution_logpdf d x =
     (if \<not> square (covariance d) \<or> length x \<noteq> length (covariance d)
          \<or> length (mv_central_value d) \<noteq> length (covariance d)
      then Inl (NotModelled msg_shape)
      else if list_ex (\<lambda>v. v \<le> 0) (np_diag (covariance d)) then Inl (ValueError msg_not_finite)
      else
        let err = map sqrt (np_diag (covariance d));
            scale_matrix = np_outer err err;
            cov_scaled = mat_div (covariance d) scale_matrix
        in (case scipy_mvn_logpdf (vec_div x err) (vec_div (mv_central_value d) err) cov_scaled of
              Inl e \<Rightarrow> Inl e
            | Inr pdf_scaled \<Rightarrow>
                (case math_log_f (fdiv (Fin (det cov_scaled)) (Fin (det (covariance d)))) of
                   Inl e \<Rightarrow> Inl e
                 | Inr v \<Rightarrow> Inr (fadd (Fin pdf_scaled) (fdiv v (Fin 2))))))"

text \<open>A covariance with widely differing variances, \<open>1\<close> and \<open>1e6\<close>.\<close>

definition mvn_example :: mvn where
  "mvn_example = \<lparr> mv_central_value = [0, 0], covariance = [[1, 0], [0, 1000000]] \<rparr>"

section \<open>Verification\<close>

lemma combine_loop_ok:
  "\<forall>r\<in>set refs. \<not> py_ne (central_value (h ! r)) cv \<and> (is_Delta (h ! r) \<or> is_Normal (h ! r)) \<Longrightarrow>
   combine_loop h cv refs acc = Inr (acc @ filter (\<lambda>r. is_Normal (h ! r)) refs)"
proof (induction refs arbitrary: acc)
  case Nil
  then show ?case by simp
next
  case (Cons r refs)
  then show ?case by (cases "h ! r") auto
qed

lemma err_squared_of_normals:
  "\<forall>r\<in>set gs. is_Normal (h ! r) \<Longrightarrow>
   err_squared_of h gs = Inr (\<Sum>s\<leftarrow>normal_sds (map ((!) h) gs). s ^ 2)"
proof (induction gs)
  case Nil
  then show ?case by (simp add: normal_sds_def)
next
  case (Cons r gs)
  then show ?case by (cases "h ! r") (auto simp: normal_sds_def)
qed

lemma normal_sds_filter:
  "normal_sds (map ((!) h) (filter (\<lambda>r. is_Normal (h ! r)) refs)) = normal_sds (map ((!) h) refs)"
proof (induction refs)
  case Nil
  then show ?case by simp
next
  case (Cons r refs)
  then show ?case by (cases "h ! r") (auto simp: normal_sds_def)
qed

lemma sum_squares_nonneg: "0 \<le> (\<Sum>s\<leftarrow>xs. (s::real) ^ 2)"
  by (induction xs) auto

lemma combine_ok:
  assumes "length refs \<noteq> 1" "refs \<noteq> []"
    and "\<forall>r\<in>set refs. central_value (h ! r) = PyFloat c"
    and "\<forall>r\<in>set refs. is_Delta (h ! r) \<or> is_Normal (h ! r)"
  shows "combine_distributions h refs =
     Inr (length h, h @ [NormalDistribution (PyFloat c) (sqrt (\<Sum>s\<leftarrow>normal_sds (map ((!) h) refs). s ^ 2))])"
proof -
  have cv: "central_value (h ! (refs ! 0)) = PyFloat c"
    using assms(2,3) by (cases refs) auto
  have loop: "combine_loop h (PyFloat c) refs [] = Inr (filter (\<lambda>r. is_Normal (h ! r)) refs)"
    using combine_loop_ok [of refs h "PyFloat c" "[]"] assms(3,4) by (simp add: py_ne_def)
  have sq: "err_squared_of h (filter (\<lambda>r. is_Normal (h ! r)) refs) =
      Inr (\<Sum>s\<leftarrow>normal_sds (map ((!) h) refs). s ^ 2)"
    using err_squared_of_normals [of "filter (\<lambda>r. is_Normal (h ! r)) refs" h]
    by (simp add: normal_sds_filter)
  show ?thesis
    using assms(1,2) cv loop sq sum_squares_nonneg [of "normal_sds (map ((!) h) refs)"]
    by (simp add: combine_distributions_def math_sqrt_def NormalDistribution_init_def alloc_def)
qed

text \<open>
  Claim C1. For a non-empty list of distributions that all have the float central value
  \<open>c\<close>: a list of one element gives back that very reference and leaves the store as it
  is (the same instance, nothing allocated); a longer list of Delta and Normal
  distributions gives a freshly allocated \<open>NormalDistribution\<close> with central value \<open>c\<close>
  whose standard deviation is the square root of the sum of the squared standard
  deviations of the Normal inputs, the Deltas contributing nothing.
\<close>

theorem combine_distributions_result:
  assumes "refs \<noteq> []" and "refs_ok h refs"
    and "\<forall>r\<in>set refs. central_value (h ! r) = PyFloat c"
  shows "(length refs = 1 \<longrightarrow> combine_distributions h refs = Inr (hd refs, h)) \<and>
     (length refs \<noteq> 1 \<and> (\<forall>r\<in>set refs. is_Delta (h ! r) \<or> is_Normal (h ! r)) \<longrightarrow>
        combine_distributions h refs =
          Inr (length h, h @ [NormalDistribution (PyFloat c)
                 (sqrt (\<Sum>s\<leftarrow>normal_sds (map ((!) h) refs). s ^ 2))]))"
proof (intro conjI impI)
  assume "length refs = 1"
  then show "combine_distributions h refs = Inr (hd refs, h)"
    by (cases refs) (simp_all add: combine_distributions_def)
next
  assume "length refs \<noteq> 1 \<and> (\<forall>r\<in>set refs. is_Delta (h ! r) \<or> is_Normal (h ! r))"
  then show "combine_distributions h refs =
          Inr (length h, h @ [NormalDistribution (PyFloat c)
                 (sqrt (\<Sum>s\<leftarrow>normal_sds (map ((!) h) refs). s ^ 2))])"
    using combine_ok [of refs h c] assms by simp
qed

theorem combine_distributions_result_witness:
  "combine_distributions store3 [1] = Inr (1, store3) \<and>
   combine_distributions store3 [0, 1, 2] =
     Inr (3, store3 @ [NormalDistribution (PyFloat 5) (sqrt 5)])"
proof -
  have a: "[1::nat] \<noteq> [] \<and> refs_ok store3 [1] \<and> (\<forall>r\<in>set [1::nat]. central_value (store3 ! r) = PyFloat 5)"
    by (simp add: store3_def refs_ok_def)
  have b: "[0::nat, 1, 2] \<noteq> [] \<and> refs_ok store3 [0, 1, 2] \<and>
      (\<forall>r\<in>set [0::nat, 1, 2]. central_value (store3 ! r) = PyFloat 5)"
    by (simp add: store3_def refs_ok_def)
  have c: "length [0::nat, 1, 2] \<noteq> 1 \<and> (\<forall>r\<in>set [0::nat, 1, 2]. is_Delta (store3 ! r) \<or> is_Normal (store3 ! r))"
    by (simp add: store3_def)
  have d: "normal_sds (map ((!) store3) [0, 1, 2]) = [1, 2]"
    by (simp add: store3_def normal_sds_def)
  have e: "length store3 = 3" by (simp add: store3_def)
  from combine_distributions_result [of "[1]" store3 5] a have "combine_distributions store3 [1] = Inr (1, store3)"
    by simp
  moreover from combine_distributions_result [of "[0, 1, 2]" store3 5] b c d e
  have "combine_distributions store3 [0, 1, 2] =
     Inr (3, store3 @ [NormalDistribution (PyFloat 5) (sqrt 5)])" by simp
  ultimately show ?thesis by simp
qed

lemma combine_loop_same:
  "i < length refs \<Longrightarrow> py_ne (central_value (h ! (refs ! i))) cv \<Longrightarrow>
   \<forall>j<i. is_Delta (h ! (refs ! j)) \<or> is_Normal (h ! (refs ! j)) \<Longrightarrow>
   combine_loop h cv refs acc = Inl (ValueError msg_same_central)"
proof (induction refs arbitrary: i acc)
  case Nil
  then show ?case by simp
next
  case (Cons r refs)
  show ?case
  proof (cases i)
    case 0
    with Cons.prems show ?thesis by simp
  next
    case (Suc k)
    have k: "k < length refs" "py_ne (central_value (h ! (refs ! k))) cv"
      using Cons.prems Suc by simp_all
    have before: "\<forall>j<k. is_Delta (h ! (refs ! j)) \<or> is_Normal (h ! (refs ! j))"
    proof (intro allI impI)
      fix j assume "j < k"
      then have "Suc j < i" using Suc by simp
      with Cons.prems(3) have "is_Delta (h ! ((r # refs) ! Suc j)) \<or> is_Normal (h ! ((r # refs) ! Suc j))"
        by blast
      then show "is_Delta (h ! (refs ! j)) \<or> is_Normal (h ! (refs ! j))" by simp
    qed
    have r: "is_Delta (h ! r) \<or> is_Normal (h ! r)"
      using Cons.prems(3) Suc by (metis nth_Cons_0 zero_less_Suc)
    show ?thesis
      using r Cons.IH [OF k before] by auto
  qed
qed

lemma combine_loop_unsupported:
  "\<forall>r\<in>set refs. \<not> py_ne (central_value (h ! r)) cv \<Longrightarrow>
   \<exists>r\<in>set refs. \<not> is_Delta (h ! r) \<and> \<not> is_Normal (h ! r) \<Longrightarrow>
   combine_loop h cv refs acc = Inl (ValueError msg_only_normal)"
proof (induction refs arbitrary: acc)
  case Nil
  then show ?case by simp
next
  case (Cons r refs)
  then show ?case by auto
qed




text \<open>
  Claim C10. Two or more Delta distributions with the same float central value \<open>c\<close>
  combine, without error, into a new \<open>NormalDistribution\<close> with central value \<open>c\<close> and
  standard deviation \<open>0\<close>: the constructor stores the zero as it is.
\<close>

theorem combine_distributions_all_delta:
  assumes "2 \<le> length refs" and "refs_ok h refs"
    and "\<forall>r\<in>set refs. h ! r = DeltaDistribution (PyFloat c)"
  shows "combine_distributions h refs = Inr (NormalDistribution_init h (PyFloat c) 0) \<and>
         NormalDistribution_init h (PyFloat c) 0 = (length h, h @ [NormalDistribution (PyFloat c) 0])"
proof -
  have sds: "normal_sds (map ((!) h) refs) = []"
    using assms(3) by (induction refs) (auto simp: normal_sds_def)
  have "combine_distributions h refs =
     Inr (length h, h @ [NormalDistribution (PyFloat c) (sqrt (\<Sum>s\<leftarrow>normal_sds (map ((!) h) refs). s ^ 2))])"
    using assms by (intro combine_ok) auto
  then show ?thesis by (simp add: sds NormalDistribution_init_def alloc_def)
qed

theorem combine_distributions_all_delta_witness:
  "combine_distributions store_delta [0, 1] =
     Inr (2, store_delta @ [NormalDistribution (PyFloat 3) 0])"
proof -
  have "2 \<le> length [0::nat, 1]" "refs_ok store_delta [0, 1]"
    "\<forall>r\<in>set [0, 1]. store_delta ! r = DeltaDistribution (PyFloat 3)"
    by (simp_all add: refs_ok_def store_delta_def)
  from combine_distributions_all_delta [OF this] show ?thesis by (simp add: store_delta_def)
qed

lemma NormalDistribution_logpdf_eq:
  "0 < s \<Longrightarrow> NormalDistribution_logpdf c s x = Inr (Fin (normal_log_density (num_val c) s x))"
  by (simp add: NormalDistribution_logpdf_def norm_logpdf_def normal_log_density_def)

lemma exp_normal_log_density:
  assumes "0 < s"
  shows "exp (normal_log_density m s x) = exp (- ((x - m) ^ 2 / (2 * s ^ 2))) / (s * sqrt (2 * pi))"
proof -
  have "exp (normal_log_density m s x) =
      exp (- (((x - m) / s) ^ 2 / 2)) / exp (ln (sqrt (2 * pi))) / exp (ln s)"
    by (simp add: normal_log_density_def exp_diff)
  also have "\<dots> = exp (- (((x - m) / s) ^ 2 / 2)) / sqrt (2 * pi) / s"
    using assms by simp
  also have "((x - m) / s) ^ 2 / 2 = (x - m) ^ 2 / (2 * s ^ 2)"
    by (simp add: power_divide)
  finally show ?thesis by (simp add: mult.commute)
qed

lemma norm_pdf_peak:
  "0 < s \<Longrightarrow> norm_pdf m m s = Fin (exp (normal_log_density m s m))"
  by (simp add: norm_pdf_def normal_log_density_def exp_diff exp_minus field_simps)

text \<open>
  Claim C5. For a \<open>UniformDistribution\<close> with central value \<open>c\<close> and half range \<open>h > 0\<close>,
  \<open>logpdf(x)\<close> is \<open>-log(2*h)\<close> when \<open>c - h \<le> x < c + h\<close> and \<open>0\<close>, not \<open>-inf\<close>, everywhere
  else, the right endpoint \<open>c + h\<close> included.
\<close>

theorem UniformDistribution_logpdf_interval:
  assumes "0 < h"
  shows "UniformDistribution_logpdf c h x =
           (if num_val c - h \<le> x \<and> x < num_val c + h then Inr (Fin (- ln (2 * h))) else Inr (Fin 0)) \<and>
         UniformDistribution_logpdf c h (num_val c + h) = Inr (Fin 0) \<and>
         Fin 0 \<noteq> NegInf"
  using assms by (auto simp: UniformDistribution_logpdf_def uniform_range_def math_log_def)

theorem UniformDistribution_logpdf_interval_witness:
  "UniformDistribution_logpdf (PyFloat 1) 2 0 = Inr (Fin (- ln 4)) \<and>
   UniformDistribution_logpdf (PyFloat 1) 2 3 = Inr (Fin 0) \<and>
   UniformDistribution_logpdf (PyFloat 1) 2 (- 2) = Inr (Fin 0)"
proof -
  have h: "(0::real) < 2" by simp
  show ?thesis
    using UniformDistribution_logpdf_interval [OF h, of "PyFloat 1" 0] UniformDistribution_logpdf_interval [OF h, of "PyFloat 1" 3]
      UniformDistribution_logpdf_interval [OF h, of "PyFloat 1" "- 2"]
    by simp
qed

text \<open>
  Claim C7. For a \<open>HalfNormalDistribution\<close> with standard deviation \<open>sd \<noteq> 0\<close>, \<open>logpdf(x)\<close>
  is \<open>-inf\<close> strictly on the side of the central value opposite the sign of \<open>sd\<close>, and
  \<open>log(2)\<close> plus the log-density of Normal(\<open>c\<close>, \<open>|sd|\<close>) on the populated side, the
  central value included. \<open>GaussianUpperLimit(limit, confidence_level)\<close> with a confidence
  level in \<open>[0, 1]\<close> is a half-normal distribution with central value \<open>0\<close> and standard
  deviation \<open>limit * ppf(0.5 + confidence_level/2)\<close>, whose \<open>logpdf\<close> is that of
  \<open>HalfNormalDistribution\<close>.
\<close>

theorem HalfNormalDistribution_logpdf_sides:
  assumes "sd \<noteq> 0"
  shows "((0 < sd \<and> x < num_val c) \<or> (sd < 0 \<and> num_val c < x) \<longrightarrow>
            HalfNormalDistribution_logpdf c sd x = Inr NegInf) \<and>
         ((0 < sd \<and> num_val c \<le> x) \<or> (sd < 0 \<and> x \<le> num_val c) \<longrightarrow>
            NormalDistribution_logpdf c \<bar>sd\<bar> x = Inr (Fin (normal_log_density (num_val c) \<bar>sd\<bar> x)) \<and>
            HalfNormalDistribution_logpdf c sd x =
              Inr (Fin (ln 2 + normal_log_density (num_val c) \<bar>sd\<bar> x))) \<and>
         (0 \<le> cl \<and> cl \<le> 1 \<longrightarrow>
            GaussianUpperLimit_init norm_ppf L cl =
              Inr (GaussianUpperLimit (PyInt 0) (L * norm_ppf (1 / 2 + cl / 2)) L cl) \<and>
            half_normal_fields (GaussianUpperLimit (PyInt 0) (L * norm_ppf (1 / 2 + cl / 2)) L cl) =
              Some (PyInt 0, L * norm_ppf (1 / 2 + cl / 2)) \<and>
            logpdf (GaussianUpperLimit (PyInt 0) (L * norm_ppf (1 / 2 + cl / 2)) L cl) y =
              HalfNormalDistribution_logpdf (PyInt 0) (L * norm_ppf (1 / 2 + cl / 2)) y)"
proof (intro conjI impI)
  assume a: "(0 < sd \<and> x < num_val c) \<or> (sd < 0 \<and> num_val c < x)"
  then have "sgn sd * (x - num_val c) < 0"
    by (auto simp: mult_less_0_iff)
  then show "HalfNormalDistribution_logpdf c sd x = Inr NegInf"
    by (simp add: HalfNormalDistribution_logpdf_def)
next
  assume a: "(0 < sd \<and> num_val c \<le> x) \<or> (sd < 0 \<and> x \<le> num_val c)"
  have pos: "0 < \<bar>sd\<bar>" using assms by simp
  show "NormalDistribution_logpdf c \<bar>sd\<bar> x = Inr (Fin (normal_log_density (num_val c) \<bar>sd\<bar> x))"
    by (rule NormalDistribution_logpdf_eq [OF pos])
  from a have "\<not> sgn sd * (x - num_val c) < 0"
    by (auto simp: mult_less_0_iff)
  then show "HalfNormalDistribution_logpdf c sd x =
      Inr (Fin (ln 2 + normal_log_density (num_val c) \<bar>sd\<bar> x))"
    using pos
    by (simp add: HalfNormalDistribution_logpdf_def math_log_def norm_logpdf_def normal_log_density_def)
next
  assume "0 \<le> cl \<and> cl \<le> 1"
  then show "GaussianUpperLimit_init norm_ppf L cl =
      Inr (GaussianUpperLimit (PyInt 0) (L * norm_ppf (1 / 2 + cl / 2)) L cl)"
    by (simp add: GaussianUpperLimit_init_def get_standard_deviation_def)
qed simp_all

theorem HalfNormalDistribution_logpdf_sides_witness:
  "HalfNormalDistribution_logpdf (PyFloat 0) 2 (- 1) = Inr NegInf \<and>
   HalfNormalDistribution_logpdf (PyFloat 0) (- 2) 1 = Inr NegInf \<and>
   HalfNormalDistribution_logpdf (PyFloat 0) 2 0 = Inr (Fin (ln 2 + normal_log_density 0 2 0)) \<and>
   GaussianUpperLimit_init (\<lambda>p. 2 * p) 3 (1 / 2) = Inr (GaussianUpperLimit (PyInt 0) (9 / 2) 3 (1 / 2))"
proof -
  have a: "(2::real) \<noteq> 0" "(- 2::real) \<noteq> 0" by simp_all
  from HalfNormalDistribution_logpdf_sides [OF a(1), of "- 1" "PyFloat 0"]
  have 1: "HalfNormalDistribution_logpdf (PyFloat 0) 2 (- 1) = Inr NegInf" by simp
  from HalfNormalDistribution_logpdf_sides [OF a(2), of 1 "PyFloat 0"]
  have 2: "HalfNormalDistribution_logpdf (PyFloat 0) (- 2) 1 = Inr NegInf" by simp
  from HalfNormalDistribution_logpdf_sides [OF a(1), of 0 "PyFloat 0"]
  have 3: "HalfNormalDistribution_logpdf (PyFloat 0) 2 0 = Inr (Fin (ln 2 + normal_log_density 0 2 0))"
    by simp
  from HalfNormalDistribution_logpdf_sides [OF a(1), of 0 "PyFloat 0" "1 / 2" "\<lambda>p. 2 * p" 3]
  have 4: "GaussianUpperLimit_init (\<lambda>p. 2 * p) 3 (1 / 2) = Inr (GaussianUpperLimit (PyInt 0) (9 / 2) 3 (1 / 2))"
    by simp
  from 1 2 3 4 show ?thesis by simp
qed

lemma AsymmetricNormal_logpdf_eq:
  assumes "0 < r" "0 < l"
  shows "AsymmetricNormalDistribution_logpdf c r l x =
     Inr (Fin (two_piece_log_density (num_val c) r l x))"
proof -
  let ?m = "num_val c"
  let ?pr = "exp (normal_log_density ?m r ?m)"
  let ?pl = "exp (normal_log_density ?m l ?m)"
  have pr: "norm_pdf ?m ?m r = Fin ?pr" and pl: "norm_pdf ?m ?m l = Fin ?pl"
    using assms by (simp_all add: norm_pdf_peak)
  have pos: "0 < ?pl + ?pr" "0 < ?pr" "0 < ?pl"
    by (simp_all add: add_pos_pos)
  have r1: "0 < 2 * ?pr / (?pl + ?pr)" and r2: "0 < 2 * ?pl / (?pl + ?pr)"
    by (intro divide_pos_pos mult_pos_pos add_pos_pos; simp)+
  have nl: "norm_logpdf x ?m l = Fin (normal_log_density ?m l x)"
    and nr: "norm_logpdf x ?m r = Fin (normal_log_density ?m r x)"
    using assms by (simp_all add: norm_logpdf_def normal_log_density_def)
  have ne: "?pl + ?pr \<noteq> 0" using pos(1) by simp
  show ?thesis
  proof (cases "x < ?m")
    case True
    have "math_log_f (fdiv (fmul (Fin 2) (Fin ?pr)) (fadd (Fin ?pl) (Fin ?pr))) =
        Inr (Fin (ln (2 * ?pr / (?pl + ?pr))))"
      using r1 ne by (simp add: math_log_def)
    with True show ?thesis
      by (simp add: AsymmetricNormalDistribution_logpdf_def Let_def pr pl nl
          two_piece_log_density_def)
  next
    case False
    have "math_log_f (fdiv (fmul (Fin 2) (Fin ?pl)) (fadd (Fin ?pl) (Fin ?pr))) =
        Inr (Fin (ln (2 * ?pl / (?pl + ?pr))))"
      using r2 ne by (simp add: math_log_def)
    with False show ?thesis
      by (simp add: AsymmetricNormalDistribution_logpdf_def Let_def pr pl nr
          two_piece_log_density_def)
  qed
qed

lemma isCont_normal_log_density: "0 < s \<Longrightarrow> isCont (\<lambda>x. normal_log_density m s x) a"
  unfolding normal_log_density_def by (intro continuous_intros) simp_all

lemma two_piece_left:
  assumes "0 < r" "0 < l"
  shows "((\<lambda>x. exp (two_piece_log_density m r l x)) \<longlongrightarrow>
     2 * exp (normal_log_density m l m) * exp (normal_log_density m r m) /
       (exp (normal_log_density m l m) + exp (normal_log_density m r m))) (at_left m)"
proof -
  let ?pr = "exp (normal_log_density m r m)"
  let ?pl = "exp (normal_log_density m l m)"
  let ?g = "\<lambda>x. exp (ln (2 * ?pr / (?pl + ?pr)) + normal_log_density m l x)"
  have pos: "0 < 2 * ?pr / (?pl + ?pr)"
    by (intro divide_pos_pos mult_pos_pos add_pos_pos; simp)
  have "isCont ?g m" by (intro continuous_intros isCont_normal_log_density assms)
  then have "(?g \<longlongrightarrow> ?g m) (at m)" by (simp add: isCont_def)
  then have "(?g \<longlongrightarrow> ?g m) (at_left m)"
    by (rule filterlim_mono) (simp_all add: at_le)
  moreover have "?g m = 2 * ?pl * ?pr / (?pl + ?pr)"
    using pos by (simp add: exp_add)
  ultimately have lim: "(?g \<longlongrightarrow> 2 * ?pl * ?pr / (?pl + ?pr)) (at_left m)"
    by simp
  have ev: "eventually (\<lambda>x. ?g x = exp (two_piece_log_density m r l x)) (at_left m)"
    by (rule eventually_at_leftI [of "m - 1"]) (simp_all add: two_piece_log_density_def Let_def)
  show ?thesis
    by (rule Lim_transform_eventually [OF lim ev])
qed

lemma two_piece_right:
  assumes "0 < r" "0 < l"
  shows "((\<lambda>x. exp (two_piece_log_density m r l x)) \<longlongrightarrow>
     2 * exp (normal_log_density m l m) * exp (normal_log_density m r m) /
       (exp (normal_log_density m l m) + exp (normal_log_density m r m))) (at_right m)"
proof -
  let ?pr = "exp (normal_log_density m r m)"
  let ?pl = "exp (normal_log_density m l m)"
  let ?g = "\<lambda>x. exp (ln (2 * ?pl / (?pl + ?pr)) + normal_log_density m r x)"
  have pos: "0 < 2 * ?pl / (?pl + ?pr)"
    by (intro divide_pos_pos mult_pos_pos add_pos_pos; simp)
  have "isCont ?g m" by (intro continuous_intros isCont_normal_log_density assms)
  then have "(?g \<longlongrightarrow> ?g m) (at m)" by (simp add: isCont_def)
  then have "(?g \<longlongrightarrow> ?g m) (at_right m)"
    by (rule filterlim_mono) (simp_all add: at_le)
  moreover have "?g m = 2 * ?pl * ?pr / (?pl + ?pr)"
    using pos by (simp add: exp_add)
  ultimately have lim: "(?g \<longlongrightarrow> 2 * ?pl * ?pr / (?pl + ?pr)) (at_right m)"
    by simp
  have ev: "eventually (\<lambda>x. ?g x = exp (two_piece_log_density m r l x)) (at_right m)"
    by (rule eventually_at_rightI [of m "m + 1"]) (simp_all add: two_piece_log_density_def Let_def)
  show ?thesis
    by (rule Lim_transform_eventually [OF lim ev])
qed

lemma two_piece_at_mode:
  "exp (two_piece_log_density m r l m) =
     2 * exp (normal_log_density m l m) * exp (normal_log_density m r m) /
       (exp (normal_log_density m l m) + exp (normal_log_density m r m))"
proof -
  have "0 < 2 * exp (normal_log_density m l m) /
      (exp (normal_log_density m l m) + exp (normal_log_density m r m))"
    by (intro divide_pos_pos mult_pos_pos add_pos_pos; simp)
  then show ?thesis by (simp add: two_piece_log_density_def Let_def exp_add)
qed

text \<open>
  Claim C6. For an \<open>AsymmetricNormalDistribution\<close> with positive deviations \<open>r\<close> and \<open>l\<close>,
  where \<open>p_right\<close> and \<open>p_left\<close> are the peak densities of the two Gaussians:
  left of the central value \<open>logpdf\<close> is \<open>log(2*p_right/(p_left + p_right))\<close> plus the
  log-density of Normal(\<open>c\<close>, \<open>l\<close>), from the central value on it is
  \<open>log(2*p_left/(p_left + p_right))\<close> plus the log-density of Normal(\<open>c\<close>, \<open>r\<close>); the
  density has the same limit from the left and from the right at \<open>c\<close>, which is its value
  there, so it is continuous at the mode.
\<close>

theorem AsymmetricNormalDistribution_logpdf_two_piece:
  assumes "0 < r" and "0 < l"
  shows "norm_pdf (num_val c) (num_val c) r = Fin (peak_density (num_val c) r) \<and>
         norm_pdf (num_val c) (num_val c) l = Fin (peak_density (num_val c) l) \<and>
         NormalDistribution_logpdf c l x = Inr (Fin (normal_log_density (num_val c) l x)) \<and>
         NormalDistribution_logpdf c r x = Inr (Fin (normal_log_density (num_val c) r x)) \<and>
         (x < num_val c \<longrightarrow>
            AsymmetricNormalDistribution_logpdf c r l x =
              Inr (Fin (ln (2 * peak_density (num_val c) r /
                            (peak_density (num_val c) l + peak_density (num_val c) r)) +
                        normal_log_density (num_val c) l x))) \<and>
         (num_val c \<le> x \<longrightarrow>
            AsymmetricNormalDistribution_logpdf c r l x =
              Inr (Fin (ln (2 * peak_density (num_val c) l /
                            (peak_density (num_val c) l + peak_density (num_val c) r)) +
                        normal_log_density (num_val c) r x))) \<and>
         ((\<lambda>t. density_of (AsymmetricNormalDistribution_logpdf c r l t)) \<longlongrightarrow>
            2 * peak_density (num_val c) l * peak_density (num_val c) r /
              (peak_density (num_val c) l + peak_density (num_val c) r)) (at_left (num_val c)) \<and>
         ((\<lambda>t. density_of (AsymmetricNormalDistribution_logpdf c r l t)) \<longlongrightarrow>
            2 * peak_density (num_val c) l * peak_density (num_val c) r /
              (peak_density (num_val c) l + peak_density (num_val c) r)) (at_right (num_val c)) \<and>
         density_of (AsymmetricNormalDistribution_logpdf c r l (num_val c)) =
            2 * peak_density (num_val c) l * peak_density (num_val c) r /
              (peak_density (num_val c) l + peak_density (num_val c) r) \<and>
         isCont (\<lambda>t. density_of (AsymmetricNormalDistribution_logpdf c r l t)) (num_val c)"
proof -
  let ?m = "num_val c"
  let ?f = "\<lambda>t. density_of (AsymmetricNormalDistribution_logpdf c r l t)"
  let ?D = "2 * peak_density ?m l * peak_density ?m r / (peak_density ?m l + peak_density ?m r)"
  have f: "?f = (\<lambda>t. exp (two_piece_log_density ?m r l t))"
    using assms by (simp add: AsymmetricNormal_logpdf_eq)
  have eq: "AsymmetricNormalDistribution_logpdf c r l x = Inr (Fin (two_piece_log_density ?m r l x))"
    using assms by (rule AsymmetricNormal_logpdf_eq)
  have left: "(?f \<longlongrightarrow> ?D) (at_left ?m)"
    unfolding f peak_density_def by (rule two_piece_left [OF assms])
  have right: "(?f \<longlongrightarrow> ?D) (at_right ?m)"
    unfolding f peak_density_def by (rule two_piece_right [OF assms])
  have mode: "?f ?m = ?D"
    using assms two_piece_at_mode [of ?m r l]
    by (simp add: AsymmetricNormal_logpdf_eq peak_density_def)
  have "(?f \<longlongrightarrow> ?D) (at ?m)"
    by (rule filterlim_split_at [OF left right])
  then have cont: "isCont ?f ?m"
    using mode by (simp add: isCont_def)
  have 1: "x < ?m \<longrightarrow> AsymmetricNormalDistribution_logpdf c r l x =
      Inr (Fin (ln (2 * peak_density ?m r / (peak_density ?m l + peak_density ?m r)) +
                normal_log_density ?m l x))"
    by (simp add: eq two_piece_log_density_def Let_def peak_density_def)
  have 2: "?m \<le> x \<longrightarrow> AsymmetricNormalDistribution_logpdf c r l x =
      Inr (Fin (ln (2 * peak_density ?m l / (peak_density ?m l + peak_density ?m r)) +
                normal_log_density ?m r x))"
    by (simp add: eq two_piece_log_density_def Let_def peak_density_def)
  have 3: "norm_pdf ?m ?m r = Fin (peak_density ?m r)" "norm_pdf ?m ?m l = Fin (peak_density ?m l)"
    using assms by (simp_all add: norm_pdf_peak peak_density_def)
  have 4: "NormalDistribution_logpdf c l x = Inr (Fin (normal_log_density ?m l x))"
    "NormalDistribution_logpdf c r x = Inr (Fin (normal_log_density ?m r x))"
    using assms by (simp_all add: NormalDistribution_logpdf_eq)
  from 1 2 3 4 left right mode cont show ?thesis by blast
qed

theorem AsymmetricNormalDistribution_logpdf_two_piece_witness:
  "AsymmetricNormalDistribution_logpdf (PyFloat 0) 1 2 (- 1) =
     Inr (Fin (ln (2 * peak_density 0 1 / (peak_density 0 2 + peak_density 0 1)) +
               normal_log_density 0 2 (- 1))) \<and>
   AsymmetricNormalDistribution_logpdf (PyFloat 0) 1 2 3 =
     Inr (Fin (ln (2 * peak_density 0 2 / (peak_density 0 2 + peak_density 0 1)) +
               normal_log_density 0 1 3)) \<and>
   isCont (\<lambda>t. density_of (AsymmetricNormalDistribution_logpdf (PyFloat 0) 1 2 t)) 0"
proof -
  have a: "(0::real) < 1" "(0::real) < 2" by simp_all
  from AsymmetricNormalDistribution_logpdf_two_piece [OF a, of "PyFloat 0" "- 1"] AsymmetricNormalDistribution_logpdf_two_piece [OF a, of "PyFloat 0" 3]
  show ?thesis by simp
qed

lemma init01:
  "NumericalDistribution_init [0, 1] [1, 1] None = Inr (NumericalDistribution (PyFloat 0) table01 ppf01)"
  by (simp add: NumericalDistribution_init_def mode_of_def np_argmax_def y_norm_of_def
      interp1d_init_def sort_nodes_def cdf_of_def np_cumsum_def table01_def ppf01_def Let_def)

text \<open>
  Claim C4 fails on the code. \<open>NumericalDistribution.__init__\<close> passes
  \<open>fill_value=-np.inf\<close> to \<open>interp1d\<close> and leaves \<open>bounds_error\<close> at its default, so the
  bounds check of the interpolant is on: for the distribution tabulated on \<open>[0, 1]\<close>,
  \<open>logpdf(2)\<close> and \<open>logpdf(-1)\<close> raise \<open>ValueError\<close> and the fill value is never
  returned.
\<close>

theorem NumericalDistribution_logpdf_out_of_range_raises:
  "NumericalDistribution_init [0, 1] [1, 1] None =
     Inr (NumericalDistribution (PyFloat 0) table01 ppf01) \<and>
   logpdf (NumericalDistribution (PyFloat 0) table01 ppf01) 2 = Inl (ValueError msg_above_range) \<and>
   logpdf (NumericalDistribution (PyFloat 0) table01 ppf01) (- 1) = Inl (ValueError msg_below_range) \<and>
   fill_value table01 = NegInf"
  by (simp add: init01 NumericalDistribution_logpdf_def interp1d_call_def table01_def)

text \<open>
  Claim C9 fails on the code. \<open>AsymmetricNormalDistribution.get_random(size=3)\<close> returns
  one scalar, where \<open>NormalDistribution.get_random(size=3)\<close> returns an array of three
  draws.
\<close>

theorem AsymmetricNormalDistribution_get_random_ignores_size:
  "get_random (AsymmetricNormalDistribution (PyFloat 0) 1 1) (Some 3) rng0 =
     Inr (Scalar (Fin 2), rng0\<lparr>uniform_pos := 1, normal_pos := 1\<rparr>) \<and>
   sample_shape (Scalar (Fin 2)) = None \<and>
   get_random (NormalDistribution (PyFloat 0) 1) (Some 3) rng0 =
     Inr (Array [Fin (- 2), Fin (- 2), Fin (- 2)], rng0\<lparr>normal_pos := 3\<rparr>)"
  by (simp add: AsymmetricNormalDistribution_get_random_def NormalDistribution_get_random_def
      np_random_uniform_def np_random_normal_def as_pyfloat_def rng0_def upt_rec)

lemma cumsum_from_Fin: "cumsum_from (Fin a) (map Fin vs) = map Fin (rcumsum a vs)"
  by (induction vs arbitrary: a) simp_all

lemma length_rcumsum [simp]: "length (rcumsum a vs) = length vs"
  by (induction vs arbitrary: a) simp_all

lemma nth_rcumsum: "i < length vs \<Longrightarrow> rcumsum a vs ! i = a + sum_list (take (Suc i) vs)"
proof (induction vs arbitrary: a i)
  case Nil
  then show ?case by simp
next
  case (Cons v vs)
  then show ?case by (cases i) simp_all
qed

lemma y_norm_of_Fin:
  "sum_list y \<noteq> 0 \<Longrightarrow> y_norm_of y R = map Fin (map (\<lambda>v. v / sum_list y * R) y)"
  by (simp add: y_norm_of_def)

lemma cdf_of_Fin:
  assumes "sum_list y \<noteq> 0" "R \<noteq> 0"
  shows "cdf_of (y_norm_of y R) R = map Fin (cdf_real y R)"
proof -
  have cs: "np_cumsum (y_norm_of y R) = map Fin (rcumsum 0 (map (\<lambda>v. v / sum_list y * R) y))"
    unfolding np_cumsum_def y_norm_of_Fin [OF assms(1)] by (rule cumsum_from_Fin)
  have dv: "map (\<lambda>v. fdiv v (Fin R)) (map Fin l) = map Fin (map (\<lambda>v. v / R) l)" for l
    using assms(2) by (induction l) simp_all
  show ?thesis
    unfolding cdf_of_def cdf_real_def Let_def cs dv
    by (simp only: map_update length_map length_list_update)
qed

lemma length_cdf_real [simp]: "length (cdf_real y R) = length y"
  by (simp add: cdf_real_def Let_def)

lemma sum_list_scaled:
  "sum_list (map (\<lambda>v. v / s * R) ys) = sum_list ys / s * (R::real)"
  by (induction ys) (simp_all add: add_divide_distrib distrib_right)

lemma nth_cdf_real:
  assumes "i < length y" "sum_list y \<noteq> 0" "R \<noteq> 0"
  shows "cdf_real y R ! i =
     (if i = length y - 1 then 1 else if i = 0 then 0 else sum_list (take (Suc i) y) / sum_list y)"
proof -
  define c where "c = map (\<lambda>v. v / R) (rcumsum 0 (map (\<lambda>v. v / sum_list y * R) y))"
  have len: "length c = length y" by (simp add: c_def)
  have "sum_list (take (Suc i) (map (\<lambda>v. v / sum_list y * R) y)) =
      sum_list (take (Suc i) y) / sum_list y * R"
    by (simp only: take_map sum_list_scaled)
  then have "rcumsum 0 (map (\<lambda>v. v / sum_list y * R) y) ! i =
      sum_list (take (Suc i) y) / sum_list y * R"
    using assms(1) nth_rcumsum [of i "map (\<lambda>v. v / sum_list y * R) y" 0] by simp
  then have ci: "c ! i = sum_list (take (Suc i) y) / sum_list y"
    using assms(1,3) unfolding c_def by (simp only: nth_map length_rcumsum length_map) simp
  have "cdf_real y R = (c[0 := 0])[length y - 1 := 1]"
    by (simp add: cdf_real_def Let_def c_def)
  then show ?thesis
    using assms(1) len ci by (auto simp: nth_list_update)
qed

lemma sum_list_take_nonneg:
  "\<forall>v\<in>set ys. (0::real) \<le> v \<Longrightarrow> 0 \<le> sum_list (take k ys)"
  by (rule sum_list_nonneg) (auto dest: in_set_takeD)

lemma sum_list_take_le:
  "\<forall>v\<in>set ys. (0::real) \<le> v \<Longrightarrow> sum_list (take k ys) \<le> sum_list ys"
proof -
  assume a: "\<forall>v\<in>set ys. (0::real) \<le> v"
  have "sum_list ys = sum_list (take k ys) + sum_list (drop k ys)"
    by (metis append_take_drop_id sum_list_append)
  moreover have "0 \<le> sum_list (drop k ys)"
    by (rule sum_list_nonneg) (use a in \<open>auto dest: in_set_dropD\<close>)
  ultimately show ?thesis by simp
qed

lemma sum_list_take_mono:
  assumes "\<forall>v\<in>set ys. (0::real) \<le> v" "j \<le> k"
  shows "sum_list (take j ys) \<le> sum_list (take k ys)"
proof -
  have "take j ys = take j (take k ys)" using assms(2) by (simp add: min_def)
  moreover have "\<forall>v\<in>set (take k ys). 0 \<le> v" using assms(1) by (auto dest: in_set_takeD)
  ultimately show ?thesis using sum_list_take_le [of "take k ys" j] by simp
qed

lemma sum_list_pos_last:
  assumes "\<forall>v\<in>set ys. (0::real) \<le> v" "ys \<noteq> []" "0 < last ys"
  shows "0 < sum_list ys" "sum_list (butlast ys) < sum_list ys"
proof -
  have ys: "ys = butlast ys @ [last ys]" using assms(2) by simp
  have "0 \<le> sum_list (butlast ys)"
    by (rule sum_list_nonneg) (use assms(1) in \<open>auto dest: in_set_butlastD\<close>)
  moreover have "sum_list ys = sum_list (butlast ys) + last ys"
    by (subst ys) simp
  ultimately show "0 < sum_list ys" "sum_list (butlast ys) < sum_list ys"
    using assms(3) by simp_all
qed

lemma cdf_real_sorted:
  assumes nn: "\<forall>v\<in>set y. 0 \<le> v" and n: "2 \<le> length y" and R: "R \<noteq> 0"
    and lst: "0 < last y"
  shows "sorted (cdf_real y R)"
proof (subst sorted_iff_nth_Suc, intro allI impI)
  fix i assume "Suc i < length (cdf_real y R)"
  then have i: "Suc i < length y" by simp
  have ne: "y \<noteq> []" using n by auto
  have s: "0 < sum_list y" by (rule sum_list_pos_last(1) [OF nn ne lst])
  then have s0: "sum_list y \<noteq> 0" by simp
  have part: "0 \<le> sum_list (take k y) / sum_list y" "sum_list (take k y) / sum_list y \<le> 1" for k
    using s sum_list_take_nonneg [OF nn, of k] sum_list_take_le [OF nn, of k] by simp_all
  have i': "i < length y" "i \<noteq> length y - 1" using i by simp_all
  have a: "cdf_real y R ! i = (if i = 0 then 0 else sum_list (take (Suc i) y) / sum_list y)"
    using nth_cdf_real [OF i'(1) s0 R] i'(2) by simp
  have b: "cdf_real y R ! Suc i =
      (if Suc i = length y - 1 then 1 else sum_list (take (Suc (Suc i)) y) / sum_list y)"
    using nth_cdf_real [OF i s0 R] by simp
  have m: "sum_list (take (Suc i) y) / sum_list y \<le> sum_list (take (Suc (Suc i)) y) / sum_list y"
    using sum_list_take_mono [OF nn, of "Suc i" "Suc (Suc i)"] s
    by (simp add: divide_right_mono)
  show "cdf_real y R ! i \<le> cdf_real y R ! Suc i"
    unfolding a b using part m by auto
qed

lemma cdf_real_ends:
  assumes nn: "\<forall>v\<in>set y. 0 \<le> v" and n: "2 \<le> length y" and R: "R \<noteq> 0"
    and first: "0 < y ! 0 + y ! 1" and lst: "0 < last y"
  shows "cdf_real y R ! 0 = 0"
    and "cdf_real y R ! (length y - 1) = 1"
    and "0 < cdf_real y R ! 1"
    and "cdf_real y R ! (length y - 2) < 1"
proof -
  have ne: "y \<noteq> []" using n by auto
  have s: "0 < sum_list y" by (rule sum_list_pos_last(1) [OF nn ne lst])
  then have s0: "sum_list y \<noteq> 0" by simp
  note nth = nth_cdf_real [OF _ s0 R]
  have i0: "0 < length y" and i1: "1 < length y" and il: "length y - 1 < length y"
    and il2: "length y - 2 < length y"
    using n by auto
  show "cdf_real y R ! 0 = 0" using n nth [OF i0] by simp
  show "cdf_real y R ! (length y - 1) = 1" using n nth [OF il] by simp
  show "0 < cdf_real y R ! 1"
  proof (cases "length y = 2")
    case True
    then show ?thesis using nth [OF i1] by simp
  next
    case False
    obtain a b ys where y: "y = a # b # ys" using n
      by (cases y; cases "tl y") auto
    have ne1: "1 \<noteq> length y - 1" using False n by arith
    have "cdf_real y R ! 1 = sum_list (take (Suc 1) y) / sum_list y"
      using nth [OF i1] ne1 by (simp del: One_nat_def)
    with first s y show ?thesis by simp
  qed
  show "cdf_real y R ! (length y - 2) < 1"
  proof (cases "length y = 2")
    case True
    then show ?thesis using nth [OF il2] by simp
  next
    case False
    have "Suc (length y - 2) = length y - 1" using n by simp
    then have "take (Suc (length y - 2)) y = butlast y"
      by (simp add: butlast_conv_take)
    moreover have "length y - 2 \<noteq> length y - 1" "length y - 2 \<noteq> 0"
      using n False by simp_all
    ultimately have "cdf_real y R ! (length y - 2) = sum_list (butlast y) / sum_list y"
      using nth [OF il2] by simp
    then show ?thesis using sum_list_pos_last(2) [OF nn ne lst] s by simp
  qed
qed

lemma sort_nodes_sorted:
  assumes "sorted cs" "length vs = length cs"
  shows "sort_nodes (zip (map Fin cs) vs) = zip (map Fin cs) vs"
  using assms
proof (induction cs arbitrary: vs)
  case Nil
  then show ?case by (simp add: sort_nodes_def)
next
  case (Cons c cs)
  then obtain v vs' where vs: "vs = v # vs'" by (cases vs) auto
  have IH: "sort_nodes (zip (map Fin cs) vs') = zip (map Fin cs) vs'"
    using Cons vs by simp
  have "sort_nodes (zip (map Fin (c # cs)) vs) = insort_node (Fin c, v) (zip (map Fin cs) vs')"
    using IH by (simp add: vs sort_nodes_def)
  also have "\<dots> = (Fin c, v) # zip (map Fin cs) vs'"
  proof (cases cs)
    case Nil
    then show ?thesis by simp
  next
    case (Cons c' cs')
    then obtain v' vs'' where "vs' = v' # vs''" using Cons.prems vs by (cases vs') auto
    moreover have "c \<le> c'" using Cons.prems(1) Cons by simp
    ultimately show ?thesis using Cons by simp
  qed
  finally show ?case by (simp add: vs)
qed

lemma searchsorted_Fin:
  "searchsorted (map Fin cs) (Fin q) = length (takeWhile (\<lambda>v. v < q) cs)"
  by (simp add: searchsorted_def takeWhile_map comp_def)

lemma takeWhile_index_holds:
  "j < length (takeWhile P xs) \<Longrightarrow> P (xs ! j)"
  by (metis nth_mem set_takeWhileD takeWhile_nth)

lemma bracket:
  assumes t: "quantile_table cs xs" and q: "0 \<le> q" "q \<le> 1"
  defines "i \<equiv> bracket_index cs q"
  shows "1 \<le> i" and "i < length cs" and "cs ! (i - 1) \<le> q" and "q \<le> cs ! i"
    and "cs ! (i - 1) < cs ! i"
proof -
  let ?P = "\<lambda>v. v < q"
  let ?k = "length (takeWhile ?P cs)"
  have n: "2 \<le> length cs" and c0: "cs ! 0 = 0" and cl: "cs ! (length cs - 1) = 1"
    and c1: "0 < cs ! 1"
    using t by (simp_all add: quantile_table_def)
  have ne: "cs \<noteq> []" using n by auto
  have main: "1 \<le> i \<and> i < length cs \<and> cs ! (i - 1) \<le> q \<and> q \<le> cs ! i \<and> cs ! (i - 1) < cs ! i"
  proof (cases "q = 0")
    case True
    have "\<not> ?P (hd cs)" using c0 ne True by (simp add: hd_conv_nth)
    then have "takeWhile ?P cs = []" using ne by (cases cs) simp_all
    then have "i = 1" by (simp add: i_def bracket_index_def)
    then show ?thesis using n c0 c1 True by simp
  next
    case False
    then have qpos: "0 < q" using q(1) by simp
    have "?P (hd cs)" using c0 ne qpos by (simp add: hd_conv_nth)
    then have k1: "1 \<le> ?k" using ne by (cases cs) simp_all
    have kn: "?k < length cs"
    proof (rule ccontr)
      assume "\<not> ?k < length cs"
      then have "?k = length cs" using length_takeWhile_le [of ?P cs] by simp
      then have "length cs - 1 < ?k" using n by simp
      then have "?P (cs ! (length cs - 1))" by (rule takeWhile_index_holds)
      with cl q(2) show False by simp
    qed
    have ik: "i = ?k" using k1 kn by (simp add: i_def bracket_index_def)
    have lo: "cs ! (?k - 1) < q"
      using takeWhile_index_holds [of "?k - 1" ?P cs] k1 by simp
    have hi: "q \<le> cs ! ?k"
      using nth_length_takeWhile [OF kn] by simp
    show ?thesis using ik k1 kn lo hi by simp
  qed
  from main show "1 \<le> i" "i < length cs" "cs ! (i - 1) \<le> q" "q \<le> cs ! i" "cs ! (i - 1) < cs ! i"
    by simp_all
qed

lemma call_linear_Fin:
  assumes t: "quantile_table cs xs" and q: "0 \<le> q" "q \<le> 1"
  shows "call_linear \<lparr>nodes = map Fin cs, node_values = map Fin xs, fill_value = fv,
            bounds_error = be\<rparr> (Fin q) = Fin (lin_interp cs xs q)"
proof -
  let ?i = "bracket_index cs q"
  have len: "length xs = length cs" using t by (simp add: quantile_table_def)
  have i: "1 \<le> ?i" "?i < length cs" "cs ! (?i - 1) < cs ! ?i"
    using bracket [OF t q] by simp_all
  have lo: "?i - 1 < length cs" using i by simp
  have d: "cs ! ?i - cs ! (?i - 1) \<noteq> 0" using i(3) by simp
  have idx: "max 1 (min (searchsorted (map Fin cs) (Fin q)) (length (map Fin cs) - 1)) = ?i"
    by (simp add: searchsorted_Fin bracket_index_def)
  show ?thesis
    unfolding call_linear_def Let_def interp1d.simps idx
    using i(2) lo len d
    by (simp add: fsub_def lin_interp_def Let_def)
qed

lemma interp1d_call_Fin:
  assumes t: "quantile_table cs xs" and q: "0 \<le> q" "q \<le> 1"
  shows "interp1d_call \<lparr>nodes = map Fin cs, node_values = map Fin xs, fill_value = fv,
            bounds_error = be\<rparr> q = Inr (Fin (lin_interp cs xs q))"
proof -
  have n: "2 \<le> length cs" and c0: "cs ! 0 = 0" and cl: "cs ! (length cs - 1) = 1"
    using t by (simp_all add: quantile_table_def)
  have ne: "cs \<noteq> []" using n by auto
  have h: "hd (map Fin cs) = Fin 0" using ne c0 by (simp add: hd_map hd_conv_nth)
  have l: "last (map Fin cs) = Fin 1" using ne cl by (simp add: last_map last_conv_nth)
  show ?thesis
    unfolding interp1d_call_def Let_def interp1d.simps h l
    using q call_linear_Fin [OF t q, of fv be] by simp
qed

lemma lin_interp_bounds:
  assumes t: "quantile_table cs xs" and q: "0 \<le> q" "q \<le> 1"
  shows "xs ! (bracket_index cs q - 1) \<le> lin_interp cs xs q"
    and "lin_interp cs xs q \<le> xs ! bracket_index cs q"
proof -
  let ?i = "bracket_index cs q"
  have len: "length xs = length cs" and sx: "sorted_wrt (<) xs"
    using t by (simp_all add: quantile_table_def)
  have i: "1 \<le> ?i" "?i < length cs" "cs ! (?i - 1) \<le> q" "q \<le> cs ! ?i" "cs ! (?i - 1) < cs ! ?i"
    using bracket [OF t q] by simp_all
  have xi: "xs ! (?i - 1) < xs ! ?i"
    using sx i(1,2) len by (simp add: sorted_wrt_iff_nth_less)
  define w where "w = (q - cs ! (?i - 1)) / (cs ! ?i - cs ! (?i - 1))"
  have w: "0 \<le> w" "w \<le> 1" using i(3,4,5) by (simp_all add: w_def)
  have eq: "lin_interp cs xs q = (xs ! ?i - xs ! (?i - 1)) * w + xs ! (?i - 1)"
    by (simp add: lin_interp_def Let_def w_def)
  have "0 \<le> (xs ! ?i - xs ! (?i - 1)) * w" using xi w(1) by simp
  then show "xs ! (?i - 1) \<le> lin_interp cs xs q" by (simp add: eq)
  have "(xs ! ?i - xs ! (?i - 1)) * w \<le> (xs ! ?i - xs ! (?i - 1)) * 1"
    using xi w(2) by (intro mult_left_mono) simp_all
  then show "lin_interp cs xs q \<le> xs ! ?i" by (simp add: eq)
qed

lemma takeWhile_length_mono:
  "(\<And>x. P x \<Longrightarrow> Q x) \<Longrightarrow> length (takeWhile P xs) \<le> length (takeWhile Q xs)"
  by (induction xs) auto

lemma bracket_index_mono: "p \<le> q \<Longrightarrow> bracket_index cs p \<le> bracket_index cs q"
proof -
  assume pq: "p \<le> q"
  have "length (takeWhile (\<lambda>v. v < p) cs) \<le> length (takeWhile (\<lambda>v. v < q) cs)"
    by (rule takeWhile_length_mono) (use pq in simp)
  then show ?thesis unfolding bracket_index_def by (simp add: max_def min_def)
qed

lemma lin_interp_mono:
  assumes t: "quantile_table cs xs" and p: "0 \<le> p" and pq: "p \<le> q" and q: "q \<le> 1"
  shows "lin_interp cs xs p \<le> lin_interp cs xs q"
proof -
  let ?i = "bracket_index cs p" and ?j = "bracket_index cs q"
  have p1: "p \<le> 1" and q0: "0 \<le> q" using p pq q by simp_all
  have len: "length xs = length cs" and sx: "sorted_wrt (<) xs"
    using t by (simp_all add: quantile_table_def)
  have ij: "?i \<le> ?j" by (rule bracket_index_mono [OF pq])
  have j: "1 \<le> ?j" "?j < length cs" "cs ! (?j - 1) < cs ! ?j"
    using bracket [OF t q0 q] by simp_all
  show ?thesis
  proof (cases "?i = ?j")
    case True
    have xi: "xs ! (?j - 1) < xs ! ?j"
      using sx j(1,2) len by (simp add: sorted_wrt_iff_nth_less)
    have "0 \<le> (xs ! ?j - xs ! (?j - 1)) / (cs ! ?j - cs ! (?j - 1))"
      using xi j(3) by simp
    then have "(xs ! ?j - xs ! (?j - 1)) / (cs ! ?j - cs ! (?j - 1)) * (p - cs ! (?j - 1))
        \<le> (xs ! ?j - xs ! (?j - 1)) / (cs ! ?j - cs ! (?j - 1)) * (q - cs ! (?j - 1))"
      using pq by (intro mult_left_mono) simp_all
    then show ?thesis by (simp add: lin_interp_def Let_def True)
  next
    case False
    then have lt: "?i \<le> ?j - 1" using ij by simp
    have "lin_interp cs xs p \<le> xs ! ?i" by (rule lin_interp_bounds(2) [OF t p p1])
    also have "xs ! ?i \<le> xs ! (?j - 1)"
    proof (cases "?i = ?j - 1")
      case True
      then show ?thesis by simp
    next
      case False
      then have "?i < ?j - 1" using lt by simp
      then have "xs ! ?i < xs ! (?j - 1)"
        using sx j(2) len by (simp add: sorted_wrt_iff_nth_less)
      then show ?thesis by simp
    qed
    also have "xs ! (?j - 1) \<le> lin_interp cs xs q" by (rule lin_interp_bounds(1) [OF t q0 q])
    finally show ?thesis .
  qed
qed

lemma lin_interp_ends:
  assumes t: "quantile_table cs xs"
  shows "lin_interp cs xs 0 = xs ! 0" and "lin_interp cs xs 1 = xs ! (length xs - 1)"
proof -
  have n: "2 \<le> length cs" and c0: "cs ! 0 = 0" and cl: "cs ! (length cs - 1) = 1"
    and c2: "cs ! (length cs - 2) < 1" and len: "length xs = length cs" and sc: "sorted cs"
    using t by (simp_all add: quantile_table_def)
  have ne: "cs \<noteq> []" using n by auto
  have "\<not> hd cs < 0" using c0 ne by (simp add: hd_conv_nth)
  then have "takeWhile (\<lambda>v. v < 0) cs = []" using ne by (cases cs) simp_all
  then have i0: "bracket_index cs 0 = 1" by (simp add: bracket_index_def)
  show "lin_interp cs xs 0 = xs ! 0"
    by (simp add: lin_interp_def Let_def i0 c0)
  let ?j = "bracket_index cs 1"
  have j: "1 \<le> ?j" "?j < length cs" "cs ! (?j - 1) \<le> 1" "1 \<le> cs ! ?j" "cs ! (?j - 1) < cs ! ?j"
    using bracket [OF t, of 1] by simp_all
  have jl: "?j = length cs - 1"
  proof (rule ccontr)
    assume "?j \<noteq> length cs - 1"
    then have "?j \<le> length cs - 2" using j(2) by simp
    then have "cs ! ?j \<le> cs ! (length cs - 2)"
      using sc n by (simp add: sorted_iff_nth_mono)
    with c2 j(4) show False by simp
  qed
  have d: "cs ! ?j - cs ! (?j - 1) \<noteq> 0" using j(5) by simp
  have "cs ! ?j = 1" using jl cl by simp
  then have "lin_interp cs xs 1 = (xs ! ?j - xs ! (?j - 1)) / (cs ! ?j - cs ! (?j - 1)) *
      (cs ! ?j - cs ! (?j - 1)) + xs ! (?j - 1)"
    by (simp add: lin_interp_def Let_def)
  also have "\<dots> = xs ! ?j" using d by simp
  finally show "lin_interp cs xs 1 = xs ! (length xs - 1)" by (simp add: jl len)
qed

lemma argmax_from_bound:
  "best < i \<Longrightarrow> argmax_from vs i best bv < i + length vs"
proof (induction vs arbitrary: i best bv)
  case Nil
  then show ?case by simp
next
  case (Cons v vs)
  have a: "argmax_from vs (Suc i) i v < Suc i + length vs"
    by (rule Cons.IH) simp
  have b: "argmax_from vs (Suc i) best bv < Suc i + length vs"
    by (rule Cons.IH) (use Cons.prems in simp)
  show ?case using a b by simp
qed

lemma np_argmax_bound:
  "y \<noteq> [] \<Longrightarrow> \<exists>i. np_argmax y = Inr i \<and> i < length y"
  using argmax_from_bound [of 0 1] by (cases y) (auto simp: np_argmax_def)

lemma mode_of_ok:
  assumes "y \<noteq> []" "length y = length x"
  shows "\<exists>c. mode_of x y = Inr c"
proof -
  obtain i where "np_argmax y = Inr i" "i < length y"
    using np_argmax_bound [OF assms(1)] by blast
  then show ?thesis using assms(2) by (simp add: mode_of_def)
qed

lemma strict_sorted_range:
  assumes "sorted_wrt (<) (x::real list)" "2 \<le> length x"
  shows "0 < last x - hd x"
proof -
  have ne: "x \<noteq> []" using assms(2) by auto
  have "x ! 0 < x ! (length x - 1)"
    using assms by (simp add: sorted_wrt_iff_nth_less)
  then show ?thesis using ne by (simp add: hd_conv_nth last_conv_nth)
qed

lemma quantile_table_cdf:
  assumes "sorted_wrt (<) x" "length y = length x" "2 \<le> length x"
    and "\<forall>v\<in>set y. 0 \<le> v" "0 < y ! 0 + y ! 1" "0 < last y" "R \<noteq> 0"
  shows "quantile_table (cdf_real y R) x"
proof -
  have n: "2 \<le> length y" using assms(2,3) by simp
  note p = cdf_real_ends [OF assms(4) n assms(7) assms(5) assms(6)]
  note s = cdf_real_sorted [OF assms(4) n assms(7) assms(6)]
  show ?thesis
    unfolding quantile_table_def using p s assms(1,2,3) by simp
qed

lemma NumericalDistribution_init_tables:
  assumes "sorted_wrt (<) x" "length y = length x" "2 \<le> length x"
    and "\<forall>v\<in>set y. 0 \<le> v" "0 < last y"
  shows "\<exists>c lp. NumericalDistribution_init x y central =
     Inr (NumericalDistribution c lp
            \<lparr>nodes = map Fin (cdf_real y (last x - hd x)), node_values = map Fin x,
             fill_value = NaN, bounds_error = True\<rparr>)"
proof -
  let ?R = "last x - hd x"
  have xne: "x \<noteq> []" and yne: "y \<noteq> []" using assms(2,3) by auto
  have R: "?R \<noteq> 0" using strict_sorted_range [OF assms(1,3)] by simp
  have s: "sum_list y \<noteq> 0" using sum_list_pos_last(1) [OF assms(4) yne assms(5)] by simp
  obtain c where c: "(case central of Some c \<Rightarrow> Inr c | None \<Rightarrow> mode_of x y) = Inr c"
    using mode_of_ok [OF yne assms(2)] by (cases central) auto
  have len1: "length (map np_log (y_norm_of y ?R)) = length (map Fin x)"
    using assms(2) by (simp add: y_norm_of_def)
  obtain lp where lp: "interp1d_init (map Fin x) (map np_log (y_norm_of y ?R)) NegInf True = Inr lp"
    using len1 assms(3) by (simp add: interp1d_init_def Let_def)
  have cdf: "cdf_of (y_norm_of y ?R) ?R = map Fin (cdf_real y ?R)"
    by (rule cdf_of_Fin [OF s R])
  have sc: "sorted (cdf_real y ?R)"
    using assms(2,3) by (intro cdf_real_sorted [OF assms(4) _ R assms(5)]) simp
  have len2: "length (map Fin x) = length (cdf_real y ?R)" using assms(2) by simp
  have srt: "sort_nodes (zip (map Fin (cdf_real y ?R)) (map Fin x)) =
      zip (map Fin (cdf_real y ?R)) (map Fin x)"
    by (rule sort_nodes_sorted [OF sc len2])
  have pp: "interp1d_init (cdf_of (y_norm_of y ?R) ?R) (map Fin x) NaN True =
      Inr \<lparr>nodes = map Fin (cdf_real y ?R), node_values = map Fin x,
            fill_value = NaN, bounds_error = True\<rparr>"
    unfolding cdf interp1d_init_def Let_def srt
    using assms(2,3) by simp
  show ?thesis
    unfolding NumericalDistribution_init_def Let_def c
    using xne lp pp by simp
qed




lemma skip_ne: "skip i k \<noteq> i"
  by (simp add: skip_def)

lemma skip_less: "k < n \<Longrightarrow> skip i k < Suc n"
  by (simp add: skip_def)

lemma det_cong:
  "(\<And>i j. i < n \<Longrightarrow> j < n \<Longrightarrow> A i j = B i j) \<Longrightarrow> det_fn n A = det_fn n B"
proof (induction n arbitrary: A B)
  case 0
  show ?case by simp
next
  case (Suc n)
  have "(- 1) ^ i * A i 0 * det_fn n (minor i A) = (- 1) ^ i * B i 0 * det_fn n (minor i B)"
    if "i \<in> {..<Suc n}" for i
  proof -
    have i: "i < Suc n" using that by simp
    have "det_fn n (minor i A) = det_fn n (minor i B)"
      by (rule Suc.IH) (simp add: minor_def Suc.prems skip_less)
    moreover have "A i 0 = B i 0" using i by (simp add: Suc.prems)
    ultimately show ?thesis by simp
  qed
  then show ?case unfolding det_fn.simps by (rule sum.cong [OF refl])
qed

lemma minor_upd_same: "minor i (A(i := r)) = minor i A"
  by (simp add: minor_def skip_ne fun_eq_iff)

lemma minor_upd_less: "k < i \<Longrightarrow> minor i (A(k := r)) = (minor i A)(k := (\<lambda>c. r (Suc c)))"
  by (auto simp: minor_def skip_def fun_eq_iff)

lemma minor_upd_greater:
  "i < k \<Longrightarrow> minor i (A(k := r)) = (minor i A)(k - 1 := (\<lambda>c. r (Suc c)))"
  by (auto simp: minor_def skip_def fun_eq_iff)

lemma det_row_linear:
  "k < n \<Longrightarrow>
   det_fn n (A(k := (\<lambda>j. a * u j + b * v j))) =
     a * det_fn n (A(k := u)) + b * det_fn n (A(k := v))"
proof (induction n arbitrary: A k u v)
  case 0
  then show ?case by simp
next
  case (Suc n)
  let ?w = "\<lambda>j. a * u j + b * v j"
  have tm: "(- 1) ^ i * (A(k := ?w)) i 0 * det_fn n (minor i (A(k := ?w))) =
      a * ((- 1) ^ i * (A(k := u)) i 0 * det_fn n (minor i (A(k := u)))) +
      b * ((- 1) ^ i * (A(k := v)) i 0 * det_fn n (minor i (A(k := v))))"
    if "i \<in> {..<Suc n}" for i
  proof -
    have i: "i < Suc n" using that by simp
    consider "i = k" | "k < i" | "i < k" by linarith
    then show ?thesis
    proof cases
      case 1
      then show ?thesis by (simp add: minor_upd_same algebra_simps)
    next
      case 2
      then have kn: "k < n" using i by simp
      have "det_fn n ((minor i A)(k := (\<lambda>c. a * u (Suc c) + b * v (Suc c)))) =
          a * det_fn n ((minor i A)(k := (\<lambda>c. u (Suc c)))) +
          b * det_fn n ((minor i A)(k := (\<lambda>c. v (Suc c))))"
        by (rule Suc.IH [OF kn])
      with 2 show ?thesis by (simp add: minor_upd_less algebra_simps)
    next
      case 3
      then have kn: "k - 1 < n" using Suc.prems by simp
      have "det_fn n ((minor i A)(k - 1 := (\<lambda>c. a * u (Suc c) + b * v (Suc c)))) =
          a * det_fn n ((minor i A)(k - 1 := (\<lambda>c. u (Suc c)))) +
          b * det_fn n ((minor i A)(k - 1 := (\<lambda>c. v (Suc c))))"
        by (rule Suc.IH [OF kn])
      with 3 show ?thesis by (simp add: minor_upd_greater algebra_simps)
    qed
  qed
  have "det_fn (Suc n) (A(k := ?w)) =
      (\<Sum>i<Suc n. a * ((- 1) ^ i * (A(k := u)) i 0 * det_fn n (minor i (A(k := u)))) +
                   b * ((- 1) ^ i * (A(k := v)) i 0 * det_fn n (minor i (A(k := v)))))"
    unfolding det_fn.simps by (rule sum.cong [OF refl]) (rule tm)
  also have "\<dots> = a * det_fn (Suc n) (A(k := u)) + b * det_fn (Suc n) (A(k := v))"
    by (simp only: det_fn.simps sum.distrib sum_distrib_left)
  finally show ?case .
qed

lemma minor_adjacent: "A k = A (Suc k) \<Longrightarrow> minor k A = minor (Suc k) A"
proof -
  assume e: "A k = A (Suc k)"
  have "A (skip k r) = A (skip (Suc k) r)" for r
    using e by (cases "r = k") (auto simp: skip_def)
  then show ?thesis by (simp add: minor_def)
qed

lemma det_adjacent_rows:
  "Suc k < n \<Longrightarrow> A k = A (Suc k) \<Longrightarrow> det_fn n A = 0"
proof (induction n arbitrary: A k)
  case 0
  then show ?case by simp
next
  case (Suc n)
  let ?f = "\<lambda>i. (- 1) ^ i * A i 0 * det_fn n (minor i A)"
  have zero: "?f i = 0" if "i \<in> {..<Suc n} - {k, Suc k}" for i
  proof -
    have i: "i < Suc n" "i \<noteq> k" "i \<noteq> Suc k" using that by auto
    have "det_fn n (minor i A) = 0"
    proof (cases "i < k")
      case True
      then have k: "Suc (k - 1) < n" using Suc.prems(1) by simp
      have "minor i A (k - 1) = minor i A (Suc (k - 1))"
        using True Suc.prems(2) by (auto simp: minor_def skip_def fun_eq_iff)
      then show ?thesis by (rule Suc.IH [OF k])
    next
      case False
      then have gt: "Suc k < i" using i by simp
      then have k: "Suc k < n" using i(1) by simp
      have "minor i A k = minor i A (Suc k)"
        using gt Suc.prems(2) by (auto simp: minor_def skip_def fun_eq_iff)
      then show ?thesis by (rule Suc.IH [OF k])
    qed
    then show ?thesis by simp
  qed
  have sub: "{k, Suc k} \<subseteq> {..<Suc n}" using Suc.prems(1) by auto
  have "det_fn (Suc n) A = sum ?f {..<Suc n}" by simp
  also have "\<dots> = sum ?f {k, Suc k}"
    by (rule sum.mono_neutral_right) (use sub zero in auto)
  also have "\<dots> = ?f k + ?f (Suc k)" by simp
  also have "\<dots> = 0"
    using Suc.prems(2) minor_adjacent [OF Suc.prems(2)] by simp
  finally show ?case .
qed

lemma det_swap_adjacent:
  assumes "Suc k < n"
  shows "det_fn n (A(k := A (Suc k), Suc k := A k)) = - det_fn n A"
proof -
  let ?u = "A k" and ?v = "A (Suc k)"
  let ?s = "\<lambda>j. 1 * ?u j + 1 * ?v j"
  have kn: "k < n" using assms by simp
  let ?B = "\<lambda>p q. A(k := p, Suc k := q)"
  have tw: "det_fn n (?B p q) = det_fn n ((A(Suc k := q))(k := p))" for p q
    by (rule arg_cong [where f = "det_fn n"]) (auto simp: fun_eq_iff)
  have z: "det_fn n (?B p p) = 0" for p
    by (rule det_adjacent_rows [OF assms]) simp
  have l2: "det_fn n (?B p ?s) = 1 * det_fn n (?B p ?u) + 1 * det_fn n (?B p ?v)" for p
    by (rule det_row_linear [OF assms])
  have l1: "det_fn n (?B ?s q) = 1 * det_fn n (?B ?u q) + 1 * det_fn n (?B ?v q)" for q
    unfolding tw by (rule det_row_linear [OF kn])
  have "det_fn n (?B ?s ?s) = 0" by (rule z)
  then have "det_fn n (?B ?s ?u) + det_fn n (?B ?s ?v) = 0"
    using l2 [of ?s] by simp
  then have "det_fn n (?B ?u ?u) + det_fn n (?B ?v ?u) + det_fn n (?B ?u ?v) + det_fn n (?B ?v ?v) = 0"
    using l1 [of ?u] l1 [of ?v] by simp
  then have "det_fn n (?B ?v ?u) + det_fn n (?B ?u ?v) = 0"
    using z [of ?u] z [of ?v] by simp
  moreover have "det_fn n (?B ?u ?v) = det_fn n A"
    by (rule arg_cong [where f = "det_fn n"]) (auto simp: fun_eq_iff)
  ultimately show ?thesis by simp
qed

lemma det_equal_rows:
  "k < l \<Longrightarrow> l < n \<Longrightarrow> A k = A l \<Longrightarrow> det_fn n A = 0"
proof (induction l arbitrary: A)
  case 0
  then show ?case by simp
next
  case (Suc m)
  show ?case
  proof (cases "k = m")
    case True
    then show ?thesis using Suc.prems det_adjacent_rows [of m n A] by simp
  next
    case False
    then have km: "k < m" using Suc.prems(1) by simp
    let ?A' = "A(m := A (Suc m), Suc m := A m)"
    have sw: "det_fn n ?A' = - det_fn n A"
      by (rule det_swap_adjacent) (use Suc.prems in simp)
    have "det_fn n ?A' = 0"
    proof (rule Suc.IH [OF km])
      show "m < n" using Suc.prems(2) by simp
      show "?A' k = ?A' m" using km Suc.prems(3) by simp
    qed
    with sw show ?thesis by simp
  qed
qed

lemma det_elim_rows: "m \<le> n \<Longrightarrow> det_fn n (elim_rows m al A) = det_fn n A"
proof (induction m)
  case 0
  have "elim_rows 0 al A = A" by (simp add: elim_rows_def fun_eq_iff)
  then show ?case by simp
next
  case (Suc m)
  show ?case
  proof (cases "m = 0")
    case True
    have "elim_rows (Suc m) al A = A" using True by (simp add: elim_rows_def fun_eq_iff)
    then show ?thesis by simp
  next
    case False
    let ?B = "elim_rows m al A"
    have mn: "m < n" using Suc.prems by simp
    have m0: "0 < m" using False by simp
    have B0: "?B 0 = A 0" and Bm: "?B m = A m"
      by (simp_all add: elim_rows_def fun_eq_iff)
    have eq: "elim_rows (Suc m) al A = ?B(m := (\<lambda>j. 1 * ?B m j + (- al m) * ?B 0 j))"
      using m0 by (auto simp: elim_rows_def fun_eq_iff)
    have "det_fn n (?B(m := (\<lambda>j. 1 * ?B m j + (- al m) * ?B 0 j))) =
        1 * det_fn n (?B(m := ?B m)) + (- al m) * det_fn n (?B(m := ?B 0))"
      by (rule det_row_linear [OF mn])
    moreover have "det_fn n (?B(m := ?B 0)) = 0"
      by (rule det_equal_rows [OF m0 mn]) simp
    moreover have "?B(m := ?B m) = ?B" by simp
    moreover have "det_fn n ?B = det_fn n A" using Suc by simp
    ultimately show ?thesis by (simp only: eq)
  qed
qed

lemma det_schur:
  assumes "A 0 0 \<noteq> 0"
  shows "det_fn (Suc n) A = A 0 0 * det_fn n (schur A)"
proof -
  let ?al = "\<lambda>i. A i 0 / A 0 0"
  let ?B = "elim_rows (Suc n) ?al A"
  let ?f = "\<lambda>i. (- 1) ^ i * ?B i 0 * det_fn n (minor i ?B)"
  have "det_fn (Suc n) A = det_fn (Suc n) ?B"
    by (rule det_elim_rows [symmetric]) simp
  also have "\<dots> = sum ?f {..<Suc n}" by simp
  also have "\<dots> = sum ?f {0}"
    by (rule sum.mono_neutral_right) (use assms in \<open>auto simp: elim_rows_def\<close>)
  also have "\<dots> = A 0 0 * det_fn n (minor 0 ?B)"
    by (simp add: elim_rows_def)
  also have "det_fn n (minor 0 ?B) = det_fn n (schur A)"
    by (rule det_cong) (simp add: minor_def skip_def elim_rows_def schur_def)
  finally show ?thesis .
qed

lemma pos_def_head:
  assumes "pos_def (Suc n) A"
  shows "0 < A 0 0"
proof -
  define v :: "nat \<Rightarrow> real" where "v = (\<lambda>i. if i = 0 then 1 else 0)"
  have v0: "v 0 = 1" and vS: "v (Suc k) = 0" for k
    by (simp_all add: v_def)
  have "quad (Suc n) A v =
      (\<Sum>j<Suc n. v 0 * A 0 j * v j) + (\<Sum>i<n. \<Sum>j<Suc n. v (Suc i) * A (Suc i) j * v j)"
    unfolding quad_def by (rule sum.lessThan_Suc_shift)
  also have "(\<Sum>i<n. \<Sum>j<Suc n. v (Suc i) * A (Suc i) j * v j) = 0"
    by (simp only: vS mult_zero_left sum.neutral_const)
  also have "(\<Sum>j<Suc n. v 0 * A 0 j * v j) =
      v 0 * A 0 0 * v 0 + (\<Sum>j<n. v 0 * A 0 (Suc j) * v (Suc j))"
    by (rule sum.lessThan_Suc_shift)
  also have "(\<Sum>j<n. v 0 * A 0 (Suc j) * v (Suc j)) = 0"
    by (simp only: vS mult_zero_right sum.neutral_const)
  finally have q: "quad (Suc n) A v = A 0 0" by (simp add: v0)
  have "\<exists>i<Suc n. v i \<noteq> 0" by (intro exI [of _ 0]) (simp add: v0)
  then have "0 < quad (Suc n) A v"
    using assms [unfolded pos_def_def, rule_format, of v] by blast
  then show ?thesis by (simp only: q)
qed

lemma quad_schur:
  fixes w :: "nat \<Rightarrow> real"
  assumes s: "sym_fn (Suc n) A" and a: "A 0 0 \<noteq> 0"
  defines "t \<equiv> (\<Sum>j<n. A 0 (Suc j) * w j)"
  defines "v \<equiv> (\<lambda>i. case i of 0 \<Rightarrow> - t / A 0 0 | Suc k \<Rightarrow> w k)"
  shows "quad (Suc n) A v = quad n (schur A) w"
proof -
  let ?a = "A 0 0"
  let ?Q = "\<Sum>i<n. \<Sum>j<n. w i * A (Suc i) (Suc j) * w j"
  have t': "(\<Sum>i<n. w i * A (Suc i) 0) = t"
    unfolding t_def
  proof (rule sum.cong [OF refl])
    fix i assume "i \<in> {..<n}"
    then have "A (Suc i) 0 = A 0 (Suc i)" using s by (simp add: sym_fn_def)
    then show "w i * A (Suc i) 0 = A 0 (Suc i) * w i" by simp
  qed
  have v0: "v 0 = - t / ?a" and vS: "v (Suc k) = w k" for k
    by (simp_all add: v_def)
  have r0: "(\<Sum>j<Suc n. v 0 * A 0 j * v j) = v 0 * ?a * v 0 + v 0 * t"
  proof -
    have "(\<Sum>j<Suc n. v 0 * A 0 j * v j) = v 0 * ?a * v 0 + (\<Sum>j<n. v 0 * A 0 (Suc j) * v (Suc j))"
      by (rule sum.lessThan_Suc_shift)
    also have "(\<Sum>j<n. v 0 * A 0 (Suc j) * v (Suc j)) = v 0 * t"
      by (simp add: vS t_def sum_distrib_left mult.assoc)
    finally show ?thesis .
  qed
  have rS: "(\<Sum>j<Suc n. v (Suc i) * A (Suc i) j * v j) =
      w i * A (Suc i) 0 * v 0 + (\<Sum>j<n. w i * A (Suc i) (Suc j) * w j)" for i
  proof -
    have "(\<Sum>j<Suc n. v (Suc i) * A (Suc i) j * v j) =
        v (Suc i) * A (Suc i) 0 * v 0 + (\<Sum>j<n. v (Suc i) * A (Suc i) (Suc j) * v (Suc j))"
      by (rule sum.lessThan_Suc_shift)
    then show ?thesis by (simp only: vS)
  qed
  have "quad (Suc n) A v =
      (\<Sum>j<Suc n. v 0 * A 0 j * v j) + (\<Sum>i<n. \<Sum>j<Suc n. v (Suc i) * A (Suc i) j * v j)"
    unfolding quad_def by (rule sum.lessThan_Suc_shift)
  also have "\<dots> = v 0 * ?a * v 0 + v 0 * t +
      (\<Sum>i<n. w i * A (Suc i) 0 * v 0 + (\<Sum>j<n. w i * A (Suc i) (Suc j) * w j))"
    by (simp only: r0 rS)
  also have "(\<Sum>i<n. w i * A (Suc i) 0 * v 0 + (\<Sum>j<n. w i * A (Suc i) (Suc j) * w j)) =
      t * v 0 + ?Q"
    by (simp only: sum.distrib sum_distrib_right [symmetric] t')
  finally have lhs: "quad (Suc n) A v = v 0 * ?a * v 0 + v 0 * t + (t * v 0 + ?Q)" .
  have lhs': "quad (Suc n) A v = ?Q - t * t / ?a"
    unfolding lhs v0 using a by (simp add: field_simps)
  have "quad n (schur A) w =
      (\<Sum>i<n. \<Sum>j<n. w i * A (Suc i) (Suc j) * w j - (w i * A (Suc i) 0) * (A 0 (Suc j) * w j) / ?a)"
    unfolding quad_def schur_def
    by (intro sum.cong refl) (simp add: algebra_simps)
  also have "\<dots> = ?Q - (\<Sum>i<n. \<Sum>j<n. (w i * A (Suc i) 0) * (A 0 (Suc j) * w j) / ?a)"
    by (simp only: sum_subtractf)
  also have "(\<Sum>i<n. \<Sum>j<n. (w i * A (Suc i) 0) * (A 0 (Suc j) * w j) / ?a) =
      (\<Sum>i<n. w i * A (Suc i) 0) * (\<Sum>j<n. A 0 (Suc j) * w j) / ?a"
    by (simp only: sum_product sum_divide_distrib)
  also have "\<dots> = t * t / ?a" by (simp only: t' t_def)
  finally show ?thesis using lhs' by simp
qed

lemma pos_def_schur:
  assumes s: "sym_fn (Suc n) A" and p: "pos_def (Suc n) A"
  shows "pos_def n (schur A)" and "sym_fn n (schur A)"
proof -
  have a: "0 < A 0 0" by (rule pos_def_head [OF p])
  show "sym_fn n (schur A)"
    using s by (simp add: sym_fn_def schur_def)
  show "pos_def n (schur A)"
    unfolding pos_def_def
  proof (intro allI impI)
    fix w :: "nat \<Rightarrow> real"
    assume "\<exists>i<n. w i \<noteq> 0"
    then obtain i where i: "i < n" "w i \<noteq> 0" by blast
    define v where "v = (\<lambda>i. case i of 0 \<Rightarrow> - (\<Sum>j<n. A 0 (Suc j) * w j) / A 0 0 | Suc k \<Rightarrow> w k)"
    have "v (Suc i) \<noteq> 0" using i by (simp add: v_def)
    then have "\<exists>i<Suc n. v i \<noteq> 0" using i(1) by (intro exI [of _ "Suc i"]) simp
    then have "0 < quad (Suc n) A v" using p by (simp add: pos_def_def)
    moreover have "quad (Suc n) A v = quad n (schur A) w"
      unfolding v_def by (rule quad_schur [OF s]) (use a in simp)
    ultimately show "0 < quad n (schur A) w" by simp
  qed
qed

lemma pos_def_det:
  "sym_fn n A \<Longrightarrow> pos_def n A \<Longrightarrow> 0 < det_fn n A"
proof (induction n arbitrary: A)
  case 0
  show ?case by simp
next
  case (Suc n)
  have a: "0 < A 0 0" by (rule pos_def_head [OF Suc.prems(2)])
  have "0 < det_fn n (schur A)"
    by (rule Suc.IH [OF pos_def_schur(2) pos_def_schur(1)]) (rule Suc.prems)+
  moreover have "det_fn (Suc n) A = A 0 0 * det_fn n (schur A)"
    by (rule det_schur) (use a in simp)
  ultimately show ?case using a by simp
qed

lemma prod_skip:
  fixes r :: "nat \<Rightarrow> real"
  shows "i \<le> n \<Longrightarrow> (\<Prod>k<n. r (skip i k)) * r i = (\<Prod>k<Suc n. r k)"
proof (induction n)
  case 0
  then show ?case by simp
next
  case (Suc n)
  show ?case
  proof (cases "i = Suc n")
    case True
    have "(\<Prod>k<Suc n. r (skip i k)) = (\<Prod>k<Suc n. r k)"
      by (rule prod.cong [OF refl]) (simp add: skip_def True)
    then show ?thesis by (simp add: True)
  next
    case False
    then have i: "i \<le> n" using Suc.prems by simp
    have "(\<Prod>k<Suc n. r (skip i k)) * r i = (\<Prod>k<n. r (skip i k)) * r i * r (skip i n)"
      by simp
    also have "\<dots> = (\<Prod>k<Suc n. r k) * r (Suc n)"
      using Suc.IH [OF i] i by (simp add: skip_def)
    finally show ?thesis by simp
  qed
qed

lemma minor_scaled:
  "minor i (scaled r c A) = scaled (\<lambda>k. r (skip i k)) (\<lambda>k. c (Suc k)) (minor i A)"
  by (simp add: minor_def scaled_def)

lemma minor2_scaled:
  "minor2 p q (scaled r c A) = scaled (\<lambda>k. r (skip p k)) (\<lambda>k. c (skip q k)) (minor2 p q A)"
  by (simp add: minor2_def scaled_def)

lemma det_scaled:
  "det_fn n (scaled r c A) = (\<Prod>i<n. r i) * (\<Prod>j<n. c j) * det_fn n A"
proof (induction n arbitrary: r c A)
  case 0
  show ?case by simp
next
  case (Suc n)
  let ?K = "(\<Prod>i<Suc n. r i) * (\<Prod>j<Suc n. c j)"
  have c: "(\<Prod>j<Suc n. c j) = c 0 * (\<Prod>j<n. c (Suc j))"
    by (rule prod.lessThan_Suc_shift)
  have tm: "(- 1) ^ i * scaled r c A i 0 * det_fn n (minor i (scaled r c A)) =
      ?K * ((- 1) ^ i * A i 0 * det_fn n (minor i A))" if "i \<in> {..<Suc n}" for i
  proof -
    have i: "i \<le> n" using that by simp
    have "det_fn n (minor i (scaled r c A)) =
        (\<Prod>k<n. r (skip i k)) * (\<Prod>k<n. c (Suc k)) * det_fn n (minor i A)"
      unfolding minor_scaled by (rule Suc.IH)
    then have "(- 1) ^ i * scaled r c A i 0 * det_fn n (minor i (scaled r c A)) =
        ((\<Prod>k<n. r (skip i k)) * r i) * (c 0 * (\<Prod>k<n. c (Suc k))) *
          ((- 1) ^ i * A i 0 * det_fn n (minor i A))"
      by (simp add: scaled_def)
    then show ?thesis by (simp only: prod_skip [OF i] c [symmetric])
  qed
  have "det_fn (Suc n) (scaled r c A) = (\<Sum>i<Suc n. ?K * ((- 1) ^ i * A i 0 * det_fn n (minor i A)))"
    unfolding det_fn.simps by (rule sum.cong [OF refl]) (rule tm)
  also have "\<dots> = ?K * det_fn (Suc n) A"
    unfolding det_fn.simps by (rule sum_distrib_left [symmetric])
  finally show ?case .
qed

lemma prod_skip_div:
  fixes r :: "nat \<Rightarrow> real"
  assumes "i \<le> n" "r i \<noteq> 0"
  shows "(\<Prod>k<n. r (skip i k)) = (\<Prod>k<Suc n. r k) / r i"
  using prod_skip [OF assms(1), of r] assms(2) by (simp add: field_simps)

lemma ratio_cancel:
  fixes P :: real
  assumes "P \<noteq> 0" "di \<noteq> 0" "dj \<noteq> 0"
  shows "s * ((P / (1 / dj)) * (P / (1 / di)) * C) / (P * P * D) = di * dj * (s * C / D)"
  using assms by (cases "D = 0") (simp_all add: field_simps)

lemma inv_fn_scaled:
  assumes nz: "\<And>k. k < Suc m \<Longrightarrow> d k \<noteq> 0" and i: "i \<le> m" and j: "j \<le> m"
  shows "inv_fn (Suc m) (scaled (\<lambda>k. 1 / d k) (\<lambda>k. 1 / d k) A) i j =
         d i * d j * inv_fn (Suc m) A i j"
proof -
  let ?r = "\<lambda>k. 1 / d k"
  let ?P = "\<Prod>k<Suc m. ?r k"
  have P: "?P \<noteq> 0" using nz by simp
  have ri: "?r i \<noteq> 0" and rj: "?r j \<noteq> 0" using nz i j by simp_all
  have "det_fn m (minor2 j i (scaled ?r ?r A)) =
      (\<Prod>k<m. ?r (skip j k)) * (\<Prod>k<m. ?r (skip i k)) * det_fn m (minor2 j i A)"
    unfolding minor2_scaled by (rule det_scaled)
  also have "\<dots> = (?P / ?r j) * (?P / ?r i) * det_fn m (minor2 j i A)"
    using prod_skip_div [of j m ?r, OF j rj] prod_skip_div [of i m ?r, OF i ri]
    by (simp only:)
  finally have cof: "det_fn m (minor2 j i (scaled ?r ?r A)) =
      (?P / ?r j) * (?P / ?r i) * det_fn m (minor2 j i A)" .
  have det: "det_fn (Suc m) (scaled ?r ?r A) = ?P * ?P * det_fn (Suc m) A"
    by (rule det_scaled)
  have "inv_fn (Suc m) (scaled ?r ?r A) i j =
      (- 1) ^ (i + j) * ((?P / ?r j) * (?P / ?r i) * det_fn m (minor2 j i A)) /
        (?P * ?P * det_fn (Suc m) A)"
    unfolding inv_fn_def det by (simp only: cof diff_Suc_1)
  also have "\<dots> = d i * d j * ((- 1) ^ (i + j) * det_fn m (minor2 j i A) / det_fn (Suc m) A)"
    by (rule ratio_cancel [OF P]) (use nz i j in simp_all)
  finally show ?thesis by (simp only: inv_fn_def diff_Suc_1)
qed

lemma maha_fn_scaled:
  assumes nz: "\<And>k. k < n \<Longrightarrow> d k \<noteq> 0"
  shows "maha_fn n (scaled (\<lambda>k. 1 / d k) (\<lambda>k. 1 / d k) A) (\<lambda>k. y k / d k) = maha_fn n A y"
proof (cases n)
  case 0
  then show ?thesis by (simp add: maha_fn_def)
next
  case (Suc m)
  show ?thesis
    unfolding maha_fn_def Suc
  proof (intro sum.cong refl)
    fix i j assume "i \<in> {..<Suc m}" "j \<in> {..<Suc m}"
    then have i: "i \<le> m" and j: "j \<le> m" by simp_all
    have di: "d i \<noteq> 0" and dj: "d j \<noteq> 0" using nz i j Suc by simp_all
    have "inv_fn (Suc m) (scaled (\<lambda>k. 1 / d k) (\<lambda>k. 1 / d k) A) i j =
        d i * d j * inv_fn (Suc m) A i j"
      by (rule inv_fn_scaled [OF _ i j]) (use nz Suc in simp)
    then show "y i / d i * inv_fn (Suc m) (scaled (\<lambda>k. 1 / d k) (\<lambda>k. 1 / d k) A) i j * (y j / d j) =
        y i * inv_fn (Suc m) A i j * y j"
      using di dj by simp
  qed
qed

lemma maha_fn_cong:
  assumes A: "\<And>i j. i < n \<Longrightarrow> j < n \<Longrightarrow> A i j = B i j"
    and y: "\<And>i. i < n \<Longrightarrow> y i = z i"
  shows "maha_fn n A y = maha_fn n B z"
  unfolding maha_fn_def
proof (intro sum.cong refl)
  fix i j assume "i \<in> {..<n}" "j \<in> {..<n}"
  then have i: "i < n" and j: "j < n" by simp_all
  then obtain m where n: "n = Suc m" by (cases n) simp_all
  have d: "det_fn n A = det_fn n B" by (rule det_cong) (rule A)
  have cof: "det_fn (n - 1) (minor2 j i A) = det_fn (n - 1) (minor2 j i B)"
    by (rule det_cong) (simp add: minor2_def A n skip_less)
  have "inv_fn n A i j = inv_fn n B i j"
    unfolding inv_fn_def by (simp only: d cof)
  then show "y i * inv_fn n A i j * y j = z i * inv_fn n B i j * z j"
    using y [OF i] y [OF j] by simp
qed

lemma quad_cong:
  assumes A: "\<And>i j. i < n \<Longrightarrow> j < n \<Longrightarrow> A i j = B i j"
    and y: "\<And>i. i < n \<Longrightarrow> y i = z i"
  shows "quad n A y = quad n B z"
  unfolding quad_def
  by (intro sum.cong refl) (simp add: A y)

lemma pos_def_diag:
  assumes "pos_def n A" "i < n"
  shows "0 < A i i"
proof -
  define v :: "nat \<Rightarrow> real" where "v = (\<lambda>k. if k = i then 1 else 0)"
  have inner: "(\<Sum>b<n. v a * A a b * v b) = v a * A a i" for a
  proof -
    have "(\<Sum>b<n. v a * A a b * v b) = (\<Sum>b<n. if b = i then v a * A a b else 0)"
      by (rule sum.cong [OF refl]) (simp add: v_def)
    also have "\<dots> = v a * A a i" using assms(2) by (simp add: sum.delta)
    finally show ?thesis .
  qed
  have "quad n A v = (\<Sum>a<n. v a * A a i)"
    unfolding quad_def by (simp only: inner)
  also have "\<dots> = (\<Sum>a<n. if a = i then A a i else 0)"
    by (rule sum.cong [OF refl]) (simp add: v_def)
  also have "\<dots> = A i i" using assms(2) by (simp add: sum.delta)
  finally have q: "quad n A v = A i i" .
  have "\<exists>k<n. v k \<noteq> 0" using assms(2) by (intro exI [of _ i]) (simp add: v_def)
  then have "0 < quad n A v"
    using assms(1) [unfolded pos_def_def, rule_format, of v] by blast
  then show ?thesis by (simp only: q)
qed

lemma pos_def_leading:
  assumes "pos_def n A" "k \<le> n"
  shows "pos_def k A"
  unfolding pos_def_def
proof (intro allI impI)
  fix v :: "nat \<Rightarrow> real"
  assume ex: "\<exists>i<k. v i \<noteq> 0"
  define v' where "v' = (\<lambda>i. if i < k then v i else 0)"
  have sub: "{..<k} \<subseteq> {..<n}" using assms(2) by auto
  have "\<exists>i<n. v' i \<noteq> 0" using ex assms(2) by (auto simp: v'_def)
  then have "0 < quad n A v'"
    using assms(1) [unfolded pos_def_def, rule_format, of v'] by blast
  moreover have "quad n A v' = quad k A v"
  proof -
    have inner: "(\<Sum>j<n. v' i * A i j * v' j) = (\<Sum>j<k. v' i * A i j * v' j)" for i
      by (rule sum.mono_neutral_right) (use sub in \<open>auto simp: v'_def\<close>)
    have "quad n A v' = (\<Sum>i<n. \<Sum>j<k. v' i * A i j * v' j)"
      unfolding quad_def by (simp only: inner)
    also have "\<dots> = (\<Sum>i<k. \<Sum>j<k. v' i * A i j * v' j)"
      by (rule sum.mono_neutral_right) (use sub in \<open>auto simp: v'_def\<close>)
    also have "\<dots> = quad k A v"
      unfolding quad_def by (intro sum.cong refl) (simp add: v'_def)
    finally show ?thesis .
  qed
  ultimately show "0 < quad k A v" by simp
qed

lemma sym_fn_leading: "sym_fn n A \<Longrightarrow> k \<le> n \<Longrightarrow> sym_fn k A"
  by (simp add: sym_fn_def)

lemma square_row: "square M \<Longrightarrow> i < length M \<Longrightarrow> length (M ! i) = length M"
  by (simp add: square_def list_all_length)

lemma symmetric_sym_fn: "symmetric M \<Longrightarrow> sym_fn (length M) (mat_fn M)"
  by (simp add: symmetric_def sym_fn_def mat_fn_def list_all_iff)

lemma positive_definite_pos_def:
  assumes "positive_definite M"
  shows "pos_def (length M) (mat_fn M)"
  unfolding pos_def_def
proof (intro allI impI)
  fix v :: "nat \<Rightarrow> real"
  assume ex: "\<exists>i<length M. v i \<noteq> 0"
  let ?l = "map v [0..<length M]"
  have "length ?l = length M \<and> (\<exists>i<length M. ?l ! i \<noteq> 0)" using ex by auto
  then have "0 < quad_form M ?l"
    using assms unfolding positive_definite_def by blast
  moreover have "quad_form M ?l = quad (length M) (mat_fn M) v"
    unfolding quad_form_def quad_def by (intro sum.cong refl) (simp add: mat_fn_def)
  ultimately show "0 < quad (length M) (mat_fn M) v" by simp
qed

lemma length_mat_div_outer:
  "length e = length M \<Longrightarrow> length (mat_div M (np_outer e e)) = length M"
  by (simp add: mat_div_def np_outer_def)

lemma nth_mat_div_outer:
  assumes "square M" "length e = length M" "i < length M" "j < length M"
  shows "mat_div M (np_outer e e) ! i ! j = M ! i ! j / (e ! i * e ! j)"
    and "length (mat_div M (np_outer e e) ! i) = length M"
proof -
  have row: "length (M ! i) = length M" by (rule square_row [OF assms(1,3)])
  have r: "mat_div M (np_outer e e) ! i = map2 (/) (M ! i) (map (\<lambda>b. e ! i * b) e)"
    using assms(2,3) by (simp add: mat_div_def np_outer_def)
  show "length (mat_div M (np_outer e e) ! i) = length M"
    using row assms(2) by (simp add: r)
  show "mat_div M (np_outer e e) ! i ! j = M ! i ! j / (e ! i * e ! j)"
    using row assms(2,4) by (simp add: r)
qed

lemma square_mat_div_outer:
  assumes "square M" "length e = length M"
  shows "square (mat_div M (np_outer e e))"
  unfolding square_def list_all_length
  using nth_mat_div_outer(2) [OF assms] length_mat_div_outer [OF assms(2)] by simp

lemma symmetric_mat_div_outer:
  assumes "square M" "symmetric M" "length e = length M"
  shows "symmetric (mat_div M (np_outer e e))"
proof -
  have s: "M ! i ! j = M ! j ! i" if "i < length M" "j < length M" for i j
    using assms(2) that by (simp add: symmetric_def list_all_iff)
  show ?thesis
    unfolding symmetric_def list_all_iff length_mat_div_outer [OF assms(3)]
    using nth_mat_div_outer(1) [OF assms(1,3)] s by (simp add: mult.commute)
qed

lemma mat_fn_scaled:
  assumes "square M" "length e = length M" "i < length M" "j < length M"
  shows "mat_fn (mat_div M (np_outer e e)) i j =
         scaled (\<lambda>k. 1 / e ! k) (\<lambda>k. 1 / e ! k) (mat_fn M) i j"
  using nth_mat_div_outer(1) [OF assms] by (simp add: mat_fn_def scaled_def)

lemma det_leading:
  assumes "square X" "k \<le> length X"
  shows "det (leading k X) = det_fn k (mat_fn X)"
proof -
  have len: "length (leading k X) = k" using assms(2) by (simp add: leading_def)
  have "det_fn k (mat_fn (leading k X)) = det_fn k (mat_fn X)"
  proof (rule det_cong)
    fix i j assume i: "i < k" and j: "j < k"
    have "length (X ! i) = length X" using square_row [OF assms(1)] i assms(2) by simp
    then show "mat_fn (leading k X) i j = mat_fn X i j"
      using i j assms(2) by (simp add: mat_fn_def leading_def)
  qed
  then show ?thesis by (simp add: det_def len)
qed

lemma det_fn_scaled_leading:
  assumes "square M" "length e = length M" "k \<le> length M"
  shows "det_fn k (mat_fn (mat_div M (np_outer e e))) =
         (\<Prod>i<k. 1 / e ! i) * (\<Prod>i<k. 1 / e ! i) * det_fn k (mat_fn M)"
proof -
  have "det_fn k (mat_fn (mat_div M (np_outer e e))) =
      det_fn k (scaled (\<lambda>k. 1 / e ! k) (\<lambda>k. 1 / e ! k) (mat_fn M))"
    by (rule det_cong) (use assms in \<open>simp add: mat_fn_scaled\<close>)
  then show ?thesis by (simp only: det_scaled)
qed

lemma leading_minors_positive_scaled:
  assumes pd: "positive_definite M" and e: "length e = length M"
    and pos: "\<And>i. i < length M \<Longrightarrow> 0 < e ! i"
  shows "leading_minors_positive (mat_div M (np_outer e e))"
    and "0 < det (mat_div M (np_outer e e))" and "0 < det M"
proof -
  let ?X = "mat_div M (np_outer e e)"
  have sq: "square M" and sy: "symmetric M" using pd by (simp_all add: positive_definite_def)
  have sqX: "square ?X" by (rule square_mat_div_outer [OF sq e])
  have lenX: "length ?X = length M" by (rule length_mat_div_outer [OF e])
  have P: "pos_def (length M) (mat_fn M)" by (rule positive_definite_pos_def [OF pd])
  have S: "sym_fn (length M) (mat_fn M)" by (rule symmetric_sym_fn [OF sy])
  have dk: "0 < det_fn k (mat_fn ?X)" if "k \<le> length M" for k
  proof -
    have "0 < det_fn k (mat_fn M)"
      by (rule pos_def_det [OF sym_fn_leading [OF S that] pos_def_leading [OF P that]])
    moreover have "0 < (\<Prod>i<k. 1 / e ! i)"
      by (rule prod_pos) (use pos that in simp)
    ultimately show ?thesis
      unfolding det_fn_scaled_leading [OF sq e that] by (intro mult_pos_pos)
  qed
  show "leading_minors_positive ?X"
    unfolding leading_minors_positive_def list_all_iff lenX
  proof
    fix k assume "k \<in> set [1..<Suc (length M)]"
    then have k: "k \<le> length M" by auto
    then have "k \<le> length ?X" by (simp add: lenX)
    then show "0 < det (leading k ?X)"
      unfolding det_leading [OF sqX \<open>k \<le> length ?X\<close>] using dk [OF k] by simp
  qed
  show "0 < det ?X" using dk [of "length M"] by (simp add: det_def lenX)
  show "0 < det M"
    unfolding det_def by (rule pos_def_det [OF S P])
qed

lemma leading_minors_positive_pd:
  assumes pd: "positive_definite M"
  shows "leading_minors_positive M"
proof -
  have sq: "square M" and sy: "symmetric M" using pd by (simp_all add: positive_definite_def)
  have P: "pos_def (length M) (mat_fn M)" by (rule positive_definite_pos_def [OF pd])
  have S: "sym_fn (length M) (mat_fn M)" by (rule symmetric_sym_fn [OF sy])
  show ?thesis
    unfolding leading_minors_positive_def list_all_iff
  proof
    fix k assume "k \<in> set [1..<Suc (length M)]"
    then have k: "k \<le> length M" by auto
    show "0 < det (leading k M)"
      unfolding det_leading [OF sq k]
      by (rule pos_def_det [OF sym_fn_leading [OF S k] pos_def_leading [OF P k]])
  qed
qed

lemma mahalanobis_scaled:
  assumes sq: "square M" and e: "length e = length M"
    and pos: "\<And>i. i < length M \<Longrightarrow> 0 < e ! i"
    and x: "length x = length M" and m: "length mu = length M"
  shows "mahalanobis (mat_div M (np_outer e e)) (vec_sub (vec_div x e) (vec_div mu e)) =
         mahalanobis M (vec_sub x mu)"
proof -
  let ?n = "length M"
  let ?X = "mat_div M (np_outer e e)"
  let ?y = "vec_fn (vec_sub x mu)"
  let ?d = "\<lambda>k. e ! k"
  have lenX: "length ?X = ?n" by (rule length_mat_div_outer [OF e])
  have "maha_fn ?n (mat_fn ?X) (vec_fn (vec_sub (vec_div x e) (vec_div mu e))) =
      maha_fn ?n (scaled (\<lambda>k. 1 / ?d k) (\<lambda>k. 1 / ?d k) (mat_fn M)) (\<lambda>k. ?y k / ?d k)"
  proof (rule maha_fn_cong)
    fix i j assume "i < ?n" "j < ?n"
    then show "mat_fn ?X i j = scaled (\<lambda>k. 1 / ?d k) (\<lambda>k. 1 / ?d k) (mat_fn M) i j"
      by (rule mat_fn_scaled [OF sq e])
  next
    fix i assume "i < ?n"
    then show "vec_fn (vec_sub (vec_div x e) (vec_div mu e)) i = ?y i / ?d i"
      using x m e by (simp add: vec_fn_def vec_sub_def vec_div_def diff_divide_distrib)
  qed
  also have "\<dots> = maha_fn ?n (mat_fn M) ?y"
    by (rule maha_fn_scaled) (use pos in force)
  finally show ?thesis by (simp add: mahalanobis_def lenX)
qed

text \<open>
  Claim C3. For a \<open>MultivariateNormalDistribution\<close> whose covariance is positive definite
  and a vector \<open>x\<close> of its dimension, \<open>logpdf(x)\<close>, computed on the rescaled data with the
  correction \<open>log(det(cov_scaled)/det(cov))/2\<close>, is the ordinary multivariate-normal
  log-density of the unscaled covariance at \<open>x\<close>, which is also what the library function
  gives on the unscaled data.
\<close>

theorem MultivariateNormalDistribution_logpdf_unscaled:
  assumes pd: "positive_definite (covariance d)" and ne: "covariance d \<noteq> []"
    and x: "length x = length (covariance d)"
    and c: "length (mv_central_value d) = length (covariance d)"
  shows "scipy_mvn_logpdf x (mv_central_value d) (covariance d) =
           Inr (mvn_log_density x (mv_central_value d) (covariance d)) \<and>
         MultivariateNormalDistribution_logpdf d x =
           Inr (Fin (mvn_log_density x (mv_central_value d) (covariance d)))"
proof -
  let ?M = "covariance d" and ?mu = "mv_central_value d"
  let ?n = "length ?M"
  let ?e = "map sqrt (np_diag ?M)"
  let ?X = "mat_div ?M (np_outer ?e ?e)"
  have sq: "square ?M" and sy: "symmetric ?M" using pd by (simp_all add: positive_definite_def)
  have P: "pos_def ?n (mat_fn ?M)" by (rule positive_definite_pos_def [OF pd])
  have diag: "0 < ?M ! i ! i" if "i < ?n" for i
    using pos_def_diag [OF P that] by (simp add: mat_fn_def)
  have nodiag: "\<not> list_ex (\<lambda>v. v \<le> 0) (np_diag ?M)"
    using diag by (fastforce simp: list_ex_iff np_diag_def)
  have le: "length ?e = ?n" by (simp add: np_diag_def)
  have epos: "0 < ?e ! i" if "i < ?n" for i
    using diag [OF that] that by (simp add: np_diag_def)
  have lenX: "length ?X = ?n" by (rule length_mat_div_outer [OF le])
  have sqX: "square ?X" by (rule square_mat_div_outer [OF sq le])
  have syX: "symmetric ?X" by (rule symmetric_mat_div_outer [OF sq sy le])
  have lm: "leading_minors_positive ?X" "0 < det ?X" "0 < det ?M"
    using leading_minors_positive_scaled [of ?M ?e, OF pd le] epos by blast+
  have maha: "mahalanobis ?X (vec_sub (vec_div x ?e) (vec_div ?mu ?e)) =
      mahalanobis ?M (vec_sub x ?mu)"
    using mahalanobis_scaled [of ?M ?e x ?mu, OF sq le _ x c] epos by blast
  have lx: "length (vec_div x ?e) = length ?X" "length (vec_div ?mu ?e) = length ?X"
    using x c le by (simp_all add: vec_div_def lenX)
  have scaled_pdf: "scipy_mvn_logpdf (vec_div x ?e) (vec_div ?mu ?e) ?X =
      Inr (- (real ?n * ln (2 * pi) + ln (det ?X) + mahalanobis ?M (vec_sub x ?mu)) / 2)"
    unfolding scipy_mvn_logpdf_def using sqX syX lx lm(1) by (simp add: maha lenX)
  have dM: "det ?M \<noteq> 0" using lm(3) by simp
  have rp: "\<not> det ?X / det ?M \<le> 0"
    using divide_pos_pos [OF lm(2,3)] by simp
  have ratio: "math_log_f (fdiv (Fin (det ?X)) (Fin (det ?M))) = Inr (Fin (ln (det ?X) - ln (det ?M)))"
    using dM rp lm(2,3) by (simp add: math_log_def ln_div)
  have plain: "scipy_mvn_logpdf x ?mu ?M = Inr (mvn_log_density x ?mu ?M)"
    unfolding scipy_mvn_logpdf_def mvn_log_density_def
    using sq sy x c leading_minors_positive_pd [OF pd] by simp
  have guard: "\<not> (\<not> square ?M \<or> length x \<noteq> ?n \<or> length ?mu \<noteq> ?n)"
    using sq x c by simp
  have "MultivariateNormalDistribution_logpdf d x =
      Inr (fadd (Fin (- (real ?n * ln (2 * pi) + ln (det ?X) + mahalanobis ?M (vec_sub x ?mu)) / 2))
             (fdiv (Fin (ln (det ?X) - ln (det ?M))) (Fin 2)))"
    unfolding MultivariateNormalDistribution_logpdf_def Let_def
    by (simp only: guard nodiag if_False scaled_pdf ratio sum.case)
  also have "\<dots> = Inr (Fin (mvn_log_density x ?mu ?M))"
    by (simp add: mvn_log_density_def field_simps)
  finally show ?thesis using plain by simp
qed

lemma positive_definite_example: "positive_definite [[1, 0], [0, 1000000]]"
  unfolding positive_definite_def
proof (intro conjI allI impI)
  show "square [[1, 0], [0, 1000000 :: real]]" by (simp add: square_def)
  show "symmetric [[1, 0], [0, 1000000 :: real]]"
    by (simp add: symmetric_def upt_rec)
next
  fix v :: "real list"
  assume a: "length v = length [[1, 0], [0, 1000000 :: real]] \<and>
      (\<exists>i<length [[1, 0], [0, 1000000 :: real]]. v ! i \<noteq> 0)"
  then obtain p q where v: "v = [p, q]"
    by (cases v; cases "tl v") auto
  from a v have nz: "p \<noteq> 0 \<or> q \<noteq> 0"
    by (auto simp: less_Suc_eq numeral_2_eq_2)
  have "quad_form [[1, 0], [0, 1000000]] v = p * p + 1000000 * (q * q)"
    by (simp add: quad_form_def v numeral_2_eq_2)
  moreover have "0 < p * p + 1000000 * (q * q)"
  proof (cases "p = 0")
    case True
    with nz have "0 < q * q" by (auto simp: zero_less_mult_iff)
    with True show ?thesis by simp
  next
    case False
    then have "0 < p * p" by (auto simp: zero_less_mult_iff)
    moreover have "0 \<le> 1000000 * (q * q)" by simp
    ultimately show ?thesis by linarith
  qed
  ultimately show "0 < quad_form [[1, 0], [0, 1000000]] v" by simp
qed

theorem MultivariateNormalDistribution_logpdf_unscaled_witness:
  "MultivariateNormalDistribution_logpdf mvn_example [1, 2] =
     Inr (Fin (mvn_log_density [1, 2] [0, 0] [[1, 0], [0, 1000000]]))"
proof -
  have h: "positive_definite (covariance mvn_example)" "covariance mvn_example \<noteq> []"
    "length [1, 2 :: real] = length (covariance mvn_example)"
    "length (mv_central_value mvn_example) = length (covariance mvn_example)"
    using positive_definite_example by (simp_all add: mvn_example_def)
  from MultivariateNormalDistribution_logpdf_unscaled [OF h] show ?thesis by (simp add: mvn_example_def)
qed

end
